theory Spec2Isabelle
  imports Main "HOL-Library.Sublist"
begin

section \<open>The behaviour tree of the composite example\<close>

text \<open>
  The program is a small behaviour-tree engine: an abstract node class
  \<^verbatim>\<open>IBehaviorTreeNode\<close>, two control nodes (\<^verbatim>\<open>Fallback\<close>, \<^verbatim>\<open>Sequence\<close>), five
  execution nodes (\<^verbatim>\<open>Esto\<close>, \<^verbatim>\<open>Aquello\<close>, \<^verbatim>\<open>Uno\<close>, \<^verbatim>\<open>Dos\<close>, \<^verbatim>\<open>Tres\<close>), the
  owning class \<^verbatim>\<open>BehaviorTree\<close> and a \<^verbatim>\<open>main\<close> that builds one tree and runs it
  once. Nodes refer to each other through raw pointers, so the embedding keeps an
  object store and makes every dereference explicit.
\<close>

subsection \<open>Enumerations\<close>

datatype e_status = SUCCESS | FAILURE | UNKNOWN

datatype e_nodeType = SEQUENCE | FALLBACK | ACTION | CONDITION

text \<open>
  The classes that derive from \<^verbatim>\<open>IBehaviorTreeNode\<close> in the source. The value stands
  for the dynamic type of an object, which selects the override of the virtual
  \<^verbatim>\<open>update\<close>.
\<close>

datatype node_class = Fallback | Sequence | Esto | Aquello | Uno | Dos | Tres

subsection \<open>Nodes\<close>

text \<open>
  A raw pointer \<^verbatim>\<open>IBehaviorTreeNode*\<close> is either \<^verbatim>\<open>nullptr\<close> (\<open>None\<close>) or an address.
  The address \<open>Some i\<close> is that of the object owned by the \<open>i\<close>-th entry of the
  tree's node storage; an address beyond the storage points to no node.
\<close>

type_synonym t_nodeRawPtr = "nat option"

record IBehaviorTreeNode =
  m_class :: node_class
  m_type :: e_nodeType
  m_parent :: t_nodeRawPtr
  m_children :: "t_nodeRawPtr list"

definition IBehaviorTreeNode_ctor :: "node_class \<Rightarrow> e_nodeType \<Rightarrow> IBehaviorTreeNode" where
  "IBehaviorTreeNode_ctor cls type =
     \<lparr>m_class = cls, m_type = type, m_parent = None, m_children = []\<rparr>"

text \<open>The constructors of the derived classes: each passes its node type to the base.\<close>

fun construct :: "node_class \<Rightarrow> IBehaviorTreeNode" where
  "construct Fallback = IBehaviorTreeNode_ctor Fallback FALLBACK"
| "construct Sequence = IBehaviorTreeNode_ctor Sequence SEQUENCE"
| "construct Esto = IBehaviorTreeNode_ctor Esto ACTION"
| "construct Aquello = IBehaviorTreeNode_ctor Aquello ACTION"
| "construct Uno = IBehaviorTreeNode_ctor Uno ACTION"
| "construct Dos = IBehaviorTreeNode_ctor Dos ACTION"
| "construct Tres = IBehaviorTreeNode_ctor Tres ACTION"

definition getNodeType :: "IBehaviorTreeNode \<Rightarrow> e_nodeType" where
  "getNodeType n = m_type n"

definition getParent :: "IBehaviorTreeNode \<Rightarrow> t_nodeRawPtr" where
  "getParent n = m_parent n"

definition hasChildren :: "IBehaviorTreeNode \<Rightarrow> bool" where
  "hasChildren n = (m_children n \<noteq> [])"

definition getChildren :: "IBehaviorTreeNode \<Rightarrow> t_nodeRawPtr list" where
  "getChildren n = m_children n"

text \<open>\<^verbatim>\<open>addChildren\<close> is a \<^verbatim>\<open>push_back\<close> on the child vector of the receiver.\<close>

definition addChildren :: "t_nodeRawPtr \<Rightarrow> IBehaviorTreeNode \<Rightarrow> IBehaviorTreeNode" where
  "addChildren node n = n\<lparr>m_children := m_children n @ [node]\<rparr>"

fun nodeStatusToString :: "e_status \<Rightarrow> string" where
  "nodeStatusToString FAILURE = ''FAILURE''"
| "nodeStatusToString SUCCESS = ''SUCCESS''"
| "nodeStatusToString UNKNOWN = ''UNKNOWN!''"

subsection \<open>The tree and the world\<close>

text \<open>
  \<^verbatim>\<open>m_nodes\<close> is the vector of owning pointers; the list holds the owned objects
  themselves, in creation order. The world of the program is the tree together with
  the lines written to standard output.
\<close>

record BehaviorTree =
  m_root :: t_nodeRawPtr
  m_nodes :: "IBehaviorTreeNode list"

record world =
  bt :: BehaviorTree
  cout :: "string list"

text \<open>
  Calling a member function through a null pointer or through a pointer to no node is
  undefined behaviour in C++. The model records it as a fault and stops; it says
  nothing about what a compiled program does from there on.
\<close>

datatype fault = NullDereference | InvalidDereference

definition deref :: "IBehaviorTreeNode list \<Rightarrow> t_nodeRawPtr \<Rightarrow> fault + IBehaviorTreeNode" where
  "deref ns p =
     (case p of
        None \<Rightarrow> Inl NullDereference
      | Some a \<Rightarrow> if a < length ns then Inr (ns ! a) else Inl InvalidDereference)"

definition print_line :: "string \<Rightarrow> world \<Rightarrow> world" where
  "print_line s w = w\<lparr>cout := cout w @ [s]\<rparr>"

subsection \<open>The virtual update\<close>

text \<open>
  \<^verbatim>\<open>update\<close> dispatches on the dynamic type of the receiver. The control nodes call
  \<^verbatim>\<open>update\<close> on their children, and nothing in the program keeps the child pointers
  from forming a cycle, so the recursion need not end: the first argument bounds the
  depth of nested calls, and \<open>None\<close> means that the bound was reached. The time step
  \<^verbatim>\<open>dt\<close> is a \<^verbatim>\<open>float\<close> that no override inspects; it is passed along as a value of
  an arbitrary type.
\<close>

fun update :: "nat \<Rightarrow> 'dt \<Rightarrow> t_nodeRawPtr \<Rightarrow> world \<Rightarrow> (fault + e_status \<times> world) option"
  and Fallback_loop :: "nat \<Rightarrow> 'dt \<Rightarrow> t_nodeRawPtr list \<Rightarrow> world \<Rightarrow> (fault + e_status \<times> world) option"
  and Sequence_loop :: "nat \<Rightarrow> 'dt \<Rightarrow> t_nodeRawPtr list \<Rightarrow> world \<Rightarrow> (fault + e_status \<times> world) option"
where
  "update 0 dt this w = None"
| "update (Suc k) dt this w =
     (case deref (m_nodes (bt w)) this of
        Inl f \<Rightarrow> Some (Inl f)
      | Inr n \<Rightarrow>
          (case m_class n of
             Fallback \<Rightarrow> Fallback_loop k dt (m_children n) (print_line ''Running FALLBACK'' w)
           | Sequence \<Rightarrow> Sequence_loop k dt (m_children n) (print_line ''Running SEQUENCE'' w)
           | Esto \<Rightarrow> Some (Inr (FAILURE, print_line (''Esto -> '' @ nodeStatusToString FAILURE) w))
           | Aquello \<Rightarrow> Some (Inr (FAILURE, print_line (''Aquello -> '' @ nodeStatusToString FAILURE) w))
           | Uno \<Rightarrow> Some (Inr (SUCCESS, print_line (''Uno -> '' @ nodeStatusToString SUCCESS) w))
           | Dos \<Rightarrow> Some (Inr (SUCCESS, print_line (''Dos -> '' @ nodeStatusToString SUCCESS) w))
           | Tres \<Rightarrow> Some (Inr (SUCCESS, print_line (''Tres -> '' @ nodeStatusToString SUCCESS) w))))"
| "Fallback_loop k dt [] w = Some (Inr (FAILURE, w))"
| "Fallback_loop k dt (child # rest) w =
     (case update k dt child w of
        None \<Rightarrow> None
      | Some (Inl f) \<Rightarrow> Some (Inl f)
      | Some (Inr (st, w')) \<Rightarrow>
          if st = SUCCESS then Some (Inr (SUCCESS, w')) else Fallback_loop k dt rest w')"
| "Sequence_loop k dt [] w = Some (Inr (SUCCESS, w))"
| "Sequence_loop k dt (child # rest) w =
     (case update k dt child w of
        None \<Rightarrow> None
      | Some (Inl f) \<Rightarrow> Some (Inl f)
      | Some (Inr (st, w')) \<Rightarrow>
          if st = FAILURE then Some (Inr (FAILURE, w')) else Sequence_loop k dt rest w')"

subsection \<open>The operations of the tree\<close>

text \<open>
  \<^verbatim>\<open>BehaviorTree\<close> declares no constructor and \<^verbatim>\<open>m_root\<close> has no initialiser, so a
  default-initialised tree holds an indeterminate root pointer. The model takes that
  value as a parameter.
\<close>

definition BehaviorTree_ctor :: "t_nodeRawPtr \<Rightarrow> BehaviorTree" where
  "BehaviorTree_ctor indeterminate = \<lparr>m_root = indeterminate, m_nodes = []\<rparr>"

definition create :: "node_class \<Rightarrow> BehaviorTree \<Rightarrow> t_nodeRawPtr \<times> BehaviorTree" where
  "create cls t = (Some (length (m_nodes t)), t\<lparr>m_nodes := m_nodes t @ [construct cls]\<rparr>)"

definition setRoot :: "t_nodeRawPtr \<Rightarrow> BehaviorTree \<Rightarrow> BehaviorTree" where
  "setRoot node t = t\<lparr>m_root := node\<rparr>"

definition getRoot :: "BehaviorTree \<Rightarrow> t_nodeRawPtr" where
  "getRoot t = m_root t"

definition run :: "nat \<Rightarrow> 'dt \<Rightarrow> world \<Rightarrow> (fault + world) option" where
  "run k dt w =
     (case update k dt (m_root (bt w)) w of
        None \<Rightarrow> None
      | Some (Inl f) \<Rightarrow> Some (Inl f)
      | Some (Inr (st, w')) \<Rightarrow> Some (Inr w'))"

text \<open>
  The call \<^verbatim>\<open>p->addChildren(node)\<close> on the store: the receiver is dereferenced, the
  argument is stored as it is.
\<close>

definition call_addChildren ::
  "t_nodeRawPtr \<Rightarrow> t_nodeRawPtr \<Rightarrow> BehaviorTree \<Rightarrow> fault + BehaviorTree" where
  "call_addChildren this node t =
     (case this of
        None \<Rightarrow> Inl NullDereference
      | Some a \<Rightarrow>
          if a < length (m_nodes t)
          then Inr (t\<lparr>m_nodes := (m_nodes t)[a := addChildren node (m_nodes t ! a)]\<rparr>)
          else Inl InvalidDereference)"

subsection \<open>Host programs\<close>

text \<open>
  A host drives the engine through its public interface. A call sequence is run from
  left to right and stops at the first fault; \<open>step\<close> gives the effect of one call.
  The pointer returned by \<^verbatim>\<open>create\<close> is the address of the new node, which later
  calls may use.
\<close>

datatype 'dt call =
    Create node_class
  | AddChildren t_nodeRawPtr t_nodeRawPtr
  | SetRoot t_nodeRawPtr
  | Run 'dt
  | Update t_nodeRawPtr 'dt

fun step :: "nat \<Rightarrow> 'dt call \<Rightarrow> world \<Rightarrow> (fault + world) option" where
  "step k (Create cls) w = Some (Inr (w\<lparr>bt := snd (create cls (bt w))\<rparr>))"
| "step k (AddChildren this node) w =
     (case call_addChildren this node (bt w) of
        Inl f \<Rightarrow> Some (Inl f)
      | Inr t \<Rightarrow> Some (Inr (w\<lparr>bt := t\<rparr>)))"
| "step k (SetRoot node) w = Some (Inr (w\<lparr>bt := setRoot node (bt w)\<rparr>))"
| "step k (Run dt) w = run k dt w"
| "step k (Update this dt) w =
     (case update k dt this w of
        None \<Rightarrow> None
      | Some (Inl f) \<Rightarrow> Some (Inl f)
      | Some (Inr (st, w')) \<Rightarrow> Some (Inr w'))"

fun exec :: "nat \<Rightarrow> 'dt call list \<Rightarrow> world \<Rightarrow> (fault + world) option" where
  "exec k [] w = Some (Inr w)"
| "exec k (c # cs) w =
     (case step k c w of
        None \<Rightarrow> None
      | Some (Inl f) \<Rightarrow> Some (Inl f)
      | Some (Inr w') \<Rightarrow> exec k cs w')"

text \<open>The world in which a host starts: a default-initialised tree, nothing printed.\<close>

definition initial_world :: "t_nodeRawPtr \<Rightarrow> world" where
  "initial_world indeterminate = \<lparr>bt = BehaviorTree_ctor indeterminate, cout = []\<rparr>"

fun is_SetRoot :: "'dt call \<Rightarrow> bool" where
  "is_SetRoot (SetRoot node) = True"
| "is_SetRoot c = False"

subsection \<open>The main function\<close>

definition then_do :: "fault + 'a \<Rightarrow> ('a \<Rightarrow> fault + 'b) \<Rightarrow> fault + 'b" where
  "then_do r f = (case r of Inl e \<Rightarrow> Inl e | Inr x \<Rightarrow> f x)"

text \<open>The tree that \<^verbatim>\<open>main\<close> builds before it runs it.\<close>

definition main_tree :: "t_nodeRawPtr \<Rightarrow> fault + BehaviorTree" where
  "main_tree indeterminate =
     (let bt0 = BehaviorTree_ctor indeterminate;
          (sequence1, bt1) = create Sequence bt0;
          (fallback1, bt2) = create Fallback bt1;
          (esto, bt3) = create Esto bt2;
          (aquello, bt4) = create Aquello bt3;
          (uno, bt5) = create Uno bt4;
          (dos, bt6) = create Dos bt5;
          (tres, bt7) = create Tres bt6
      in then_do (call_addChildren fallback1 esto bt7) (\<lambda>bt8.
         then_do (call_addChildren fallback1 aquello bt8) (\<lambda>bt9.
         then_do (call_addChildren fallback1 sequence1 bt9) (\<lambda>bt10.
         then_do (call_addChildren sequence1 uno bt10) (\<lambda>bt11.
         then_do (call_addChildren sequence1 dos bt11) (\<lambda>bt12.
         then_do (call_addChildren sequence1 tres bt12) (\<lambda>bt13.
         Inr (setRoot fallback1 bt13))))))))"

definition main :: "nat \<Rightarrow> t_nodeRawPtr \<Rightarrow> 'dt \<Rightarrow> (fault + world) option" where
  "main k indeterminate dt =
     (case main_tree indeterminate of
        Inl f \<Rightarrow> Some (Inl f)
      | Inr t \<Rightarrow> run k dt \<lparr>bt = t, cout = []\<rparr>)"

subsection \<open>Auxiliary notions for the statements\<close>

text \<open>
  Invoking \<^verbatim>\<open>update\<close> on each pointer of a list, one after the other and without any
  early exit, collecting the statuses. The evaluation of a control node is compared
  with it.
\<close>

fun invoke_in_order ::
  "nat \<Rightarrow> 'dt \<Rightarrow> t_nodeRawPtr list \<Rightarrow> world \<Rightarrow> (fault + e_status list \<times> world) option" where
  "invoke_in_order k dt [] w = Some (Inr ([], w))"
| "invoke_in_order k dt (c # cs) w =
     (case update k dt c w of
        None \<Rightarrow> None
      | Some (Inl f) \<Rightarrow> Some (Inl f)
      | Some (Inr (st, w')) \<Rightarrow>
          (case invoke_in_order k dt cs w' of
             None \<Rightarrow> None
           | Some (Inl f) \<Rightarrow> Some (Inl f)
           | Some (Inr (sts, w'')) \<Rightarrow> Some (Inr (st # sts, w''))))"

text \<open>
  The two loops differ only in the status that ends the iteration and in the status
  returned when the iteration runs to the end. This is their common shape, used in the
  proofs to treat both at once.
\<close>

fun loop_until ::
  "e_status \<Rightarrow> e_status \<Rightarrow> nat \<Rightarrow> 'dt \<Rightarrow> t_nodeRawPtr list \<Rightarrow> world
     \<Rightarrow> (fault + e_status \<times> world) option" where
  "loop_until stop other k dt [] w = Some (Inr (other, w))"
| "loop_until stop other k dt (child # rest) w =
     (case update k dt child w of
        None \<Rightarrow> None
      | Some (Inl f) \<Rightarrow> Some (Inl f)
      | Some (Inr (st, w')) \<Rightarrow>
          if st = stop then Some (Inr (stop, w')) else loop_until stop other k dt rest w')"

definition opposite :: "e_status \<Rightarrow> e_status \<Rightarrow> bool" where
  "opposite stop other \<longleftrightarrow> stop \<noteq> other \<and> stop \<noteq> UNKNOWN \<and> other \<noteq> UNKNOWN"

text \<open>The lines that a computation from \<open>w\<close> to \<open>w'\<close> has written.\<close>

definition written :: "world \<Rightarrow> world \<Rightarrow> string list" where
  "written w w' = drop (length (cout w)) (cout w')"

definition prepend_out :: "string list \<Rightarrow> world \<Rightarrow> world" where
  "prepend_out xs w = w\<lparr>cout := xs @ cout w\<rparr>"

definition map_result ::
  "(world \<Rightarrow> world) \<Rightarrow> (fault + 'a \<times> world) option \<Rightarrow> (fault + 'a \<times> world) option" where
  "map_result g r = map_option (map_sum id (map_prod id g)) r"

text \<open>
  The tree invariant of the data model, which the engine never checks: every child
  pointer is the address of a stored node, and some rank strictly decreases from each
  node to its children, so that no node is its own descendant.
\<close>

definition valid_child :: "(nat \<Rightarrow> nat) \<Rightarrow> nat \<Rightarrow> nat \<Rightarrow> t_nodeRawPtr \<Rightarrow> bool" where
  "valid_child rank len a c = (case c of None \<Rightarrow> False | Some b \<Rightarrow> b < len \<and> rank b < rank a)"

definition well_formed :: "(nat \<Rightarrow> nat) \<Rightarrow> IBehaviorTreeNode list \<Rightarrow> bool" where
  "well_formed rank ns =
     (\<forall>(a, n) \<in> set (enumerate 0 ns). \<forall>c \<in> set (m_children n). valid_child rank (length ns) a c)"

section \<open>Properties of the evaluation\<close>

lemma bt_print_line [simp]: "bt (print_line s w) = bt w"
  by (simp add: print_line_def)

lemma Fallback_loop_bt:
  assumes H: "\<And>p w st w'. update k dt p w = Some (Inr (st, w')) \<Longrightarrow> bt w' = bt w"
  shows "Fallback_loop k dt cs w = Some (Inr (st, w')) \<Longrightarrow> bt w' = bt w"
proof (induction cs arbitrary: w)
  case Nil
  then show ?case by simp
next
  case (Cons c cs)
  then show ?case
    by (auto split: option.splits sum.splits if_splits dest: H)
qed

lemma Sequence_loop_bt:
  assumes H: "\<And>p w st w'. update k dt p w = Some (Inr (st, w')) \<Longrightarrow> bt w' = bt w"
  shows "Sequence_loop k dt cs w = Some (Inr (st, w')) \<Longrightarrow> bt w' = bt w"
proof (induction cs arbitrary: w)
  case Nil
  then show ?case by simp
next
  case (Cons c cs)
  then show ?case
    by (auto split: option.splits sum.splits if_splits dest: H)
qed

lemma update_bt: "update k dt p w = Some (Inr (st, w')) \<Longrightarrow> bt w' = bt w"
proof (induction k arbitrary: p w st w')
  case 0
  then show ?case by simp
next
  case (Suc k)
  have F: "bt w2 = bt w1" if "Fallback_loop k dt cs w1 = Some (Inr (s, w2))" for cs w1 s w2
    using that Suc.IH by (rule Fallback_loop_bt [rotated])
  have S: "bt w2 = bt w1" if "Sequence_loop k dt cs w1 = Some (Inr (s, w2))" for cs w1 s w2
    using that Suc.IH by (rule Sequence_loop_bt [rotated])
  from Suc.prems show ?case
    by (auto split: sum.splits node_class.splits dest: F S)
qed


lemma Fallback_loop_status:
  "Fallback_loop k dt cs w = Some (Inr (st, w')) \<Longrightarrow> st \<noteq> UNKNOWN"
proof (induction cs arbitrary: w)
  case Nil
  then show ?case by auto
next
  case (Cons c cs)
  then show ?case
    by (auto split: option.splits sum.splits if_splits)
qed

lemma Sequence_loop_status:
  "Sequence_loop k dt cs w = Some (Inr (st, w')) \<Longrightarrow> st \<noteq> UNKNOWN"
proof (induction cs arbitrary: w)
  case Nil
  then show ?case by auto
next
  case (Cons c cs)
  then show ?case
    by (auto split: option.splits sum.splits if_splits)
qed

lemma update_status: "update k dt p w = Some (Inr (st, w')) \<Longrightarrow> st \<noteq> UNKNOWN"
  by (cases k)
    (auto split: sum.splits node_class.splits dest: Fallback_loop_status Sequence_loop_status)

lemma Fallback_loop_mono:
  assumes H: "\<And>p w r. update k dt p w = Some r \<Longrightarrow> update (Suc k) dt p w = Some r"
  shows "Fallback_loop k dt cs w = Some r \<Longrightarrow> Fallback_loop (Suc k) dt cs w = Some r"
proof (induction cs arbitrary: w)
  case Nil
  then show ?case by simp
next
  case (Cons c cs)
  show ?case
  proof (cases "update k dt c w")
    case None
    with Cons.prems show ?thesis by simp
  next
    case (Some a)
    from H [OF Some] Some Cons.prems Cons.IH show ?thesis
      by (auto simp del: update.simps split: sum.splits if_splits)
  qed
qed

lemma Sequence_loop_mono:
  assumes H: "\<And>p w r. update k dt p w = Some r \<Longrightarrow> update (Suc k) dt p w = Some r"
  shows "Sequence_loop k dt cs w = Some r \<Longrightarrow> Sequence_loop (Suc k) dt cs w = Some r"
proof (induction cs arbitrary: w)
  case Nil
  then show ?case by simp
next
  case (Cons c cs)
  show ?case
  proof (cases "update k dt c w")
    case None
    with Cons.prems show ?thesis by simp
  next
    case (Some a)
    from H [OF Some] Some Cons.prems Cons.IH show ?thesis
      by (auto simp del: update.simps split: sum.splits if_splits)
  qed
qed

lemma update_Suc: "update k dt p w = Some r \<Longrightarrow> update (Suc k) dt p w = Some r"
proof (induction k arbitrary: p w r)
  case 0
  then show ?case by simp
next
  case (Suc k)
  have F: "Fallback_loop (Suc k) dt cs w1 = Some r1" if "Fallback_loop k dt cs w1 = Some r1" for cs w1 r1
    using that Suc.IH by (rule Fallback_loop_mono [rotated])
  have S: "Sequence_loop (Suc k) dt cs w1 = Some r1" if "Sequence_loop k dt cs w1 = Some r1" for cs w1 r1
    using that Suc.IH by (rule Sequence_loop_mono [rotated])
  from Suc.prems have "update (Suc k) dt p w = Some r" .
  then show ?case
    unfolding update.simps(2) [of "Suc k"] update.simps(2) [of k]
    by (auto simp del: Fallback_loop.simps Sequence_loop.simps split: sum.splits node_class.splits dest: F S)
qed

lemma update_mono: "update k dt p w = Some r \<Longrightarrow> k \<le> k' \<Longrightarrow> update k' dt p w = Some r"
  by (induction k' ) (auto simp: le_Suc_eq dest: update_Suc simp del: update.simps)


lemma bt_prepend_out [simp]: "bt (prepend_out xs w) = bt w"
  by (simp add: prepend_out_def)

lemma print_line_prepend_out [simp]:
  "print_line s (prepend_out xs w) = prepend_out xs (print_line s w)"
  by (simp add: prepend_out_def print_line_def)

lemma map_result_simps [simp]:
  "map_result g None = None"
  "map_result g (Some (Inl f)) = Some (Inl f)"
  "map_result g (Some (Inr (a, w))) = Some (Inr (a, g w))"
  by (simp_all add: map_result_def)

lemma Fallback_loop_prepend:
  assumes H: "\<And>p w. update k dt p (prepend_out xs w) = map_result (prepend_out xs) (update k dt p w)"
  shows "Fallback_loop k dt cs (prepend_out xs w) = map_result (prepend_out xs) (Fallback_loop k dt cs w)"
proof (induction cs arbitrary: w)
  case Nil
  show ?case by simp
next
  case (Cons c cs)
  show ?case
    by (simp add: H Cons.IH split: option.splits sum.splits prod.splits)
qed

lemma Sequence_loop_prepend:
  assumes H: "\<And>p w. update k dt p (prepend_out xs w) = map_result (prepend_out xs) (update k dt p w)"
  shows "Sequence_loop k dt cs (prepend_out xs w) = map_result (prepend_out xs) (Sequence_loop k dt cs w)"
proof (induction cs arbitrary: w)
  case Nil
  show ?case by simp
next
  case (Cons c cs)
  show ?case
    by (simp add: H Cons.IH split: option.splits sum.splits prod.splits)
qed

lemma update_prepend:
  "update k dt p (prepend_out xs w) = map_result (prepend_out xs) (update k dt p w)"
proof (induction k arbitrary: p w)
  case 0
  show ?case by simp
next
  case (Suc k)
  note F = Fallback_loop_prepend [of k dt xs, OF Suc.IH]
  note S = Sequence_loop_prepend [of k dt xs, OF Suc.IH]
  show ?case
    by (simp add: F S split: sum.splits node_class.splits)
qed


lemma world_split: "prepend_out (cout w) (w\<lparr>cout := []\<rparr>) = (w::world)"
  by (simp add: prepend_out_def)

lemma update_cout:
  assumes "update k dt p w = Some (Inr (st, w'))"
  shows "cout w' = cout w @ written w w'"
proof -
  have "update k dt p w = map_result (prepend_out (cout w)) (update k dt p (w\<lparr>cout := []\<rparr>))"
    using update_prepend [of k dt p "cout w" "w\<lparr>cout := []\<rparr>"] by (simp only: world_split)
  with assms obtain v where "w' = prepend_out (cout w) v"
    by (cases "update k dt p (w\<lparr>cout := []\<rparr>)") (auto simp: map_result_def map_sum_def split: sum.splits)
  then show ?thesis by (simp add: written_def prepend_out_def)
qed

lemma well_formed_child:
  assumes "well_formed rank ns" and "a < length ns" and "c \<in> set (m_children (ns ! a))"
  shows "\<exists>b. c = Some b \<and> b < length ns \<and> rank b < rank a"
proof -
  from assms(2) have "(a, ns ! a) \<in> set (enumerate 0 ns)"
    by (simp add: in_set_enumerate_eq)
  with assms(1,3) have "valid_child rank (length ns) a c"
    unfolding well_formed_def by blast
  then show ?thesis
    by (cases c) (simp_all add: valid_child_def)
qed

lemma Fallback_loop_terminates:
  assumes "\<forall>c\<in>set cs. \<forall>w1. bt w1 = B \<longrightarrow> (\<exists>st w'. update k dt c w1 = Some (Inr (st, w')))"
    and "bt w = B"
  shows "\<exists>st w'. Fallback_loop k dt cs w = Some (Inr (st, w'))"
  using assms
proof (induction cs arbitrary: w)
  case Nil
  show ?case by simp
next
  case (Cons c cs)
  from Cons.prems obtain st w1 where c: "update k dt c w = Some (Inr (st, w1))"
    by auto
  then have "bt w1 = B" using Cons.prems(2) by (simp add: update_bt)
  moreover have "\<forall>c\<in>set cs. \<forall>w1. bt w1 = B \<longrightarrow> (\<exists>st w'. update k dt c w1 = Some (Inr (st, w')))"
    using Cons.prems(1) by simp
  ultimately obtain st2 w2 where "Fallback_loop k dt cs w1 = Some (Inr (st2, w2))"
    using Cons.IH [of w1] by blast
  with c show ?case by simp
qed

lemma Sequence_loop_terminates:
  assumes "\<forall>c\<in>set cs. \<forall>w1. bt w1 = B \<longrightarrow> (\<exists>st w'. update k dt c w1 = Some (Inr (st, w')))"
    and "bt w = B"
  shows "\<exists>st w'. Sequence_loop k dt cs w = Some (Inr (st, w'))"
  using assms
proof (induction cs arbitrary: w)
  case Nil
  show ?case by simp
next
  case (Cons c cs)
  from Cons.prems obtain st w1 where c: "update k dt c w = Some (Inr (st, w1))"
    by auto
  then have "bt w1 = B" using Cons.prems(2) by (simp add: update_bt)
  moreover have "\<forall>c\<in>set cs. \<forall>w1. bt w1 = B \<longrightarrow> (\<exists>st w'. update k dt c w1 = Some (Inr (st, w')))"
    using Cons.prems(1) by simp
  ultimately obtain st2 w2 where "Sequence_loop k dt cs w1 = Some (Inr (st2, w2))"
    using Cons.IH [of w1] by blast
  with c show ?case by simp
qed

lemma update_terminates:
  assumes "well_formed rank (m_nodes (bt w))" and "a < length (m_nodes (bt w))" and "rank a < k"
  shows "\<exists>st w'. update k dt (Some a) w = Some (Inr (st, w'))"
  using assms
proof (induction k arbitrary: a w)
  case 0
  then show ?case by simp
next
  case (Suc k)
  let ?n = "m_nodes (bt w) ! a"
  have d: "deref (m_nodes (bt w)) (Some a) = Inr ?n"
    using Suc.prems(2) by (simp add: deref_def)
  have kids: "\<forall>c\<in>set (m_children ?n). \<forall>w1. bt w1 = bt w \<longrightarrow> (\<exists>st w'. update k dt c w1 = Some (Inr (st, w')))"
  proof (intro ballI allI impI)
    fix c and w1 :: world
    assume c: "c \<in> set (m_children ?n)" and w1: "bt w1 = bt w"
    from well_formed_child [OF Suc.prems(1,2) c] obtain b
      where b: "c = Some b" "b < length (m_nodes (bt w))" "rank b < rank a" by blast
    with Suc.prems(3) have "rank b < k" by simp
    with Suc.IH [of w1 b] Suc.prems(1) b w1 show "\<exists>st w'. update k dt c w1 = Some (Inr (st, w'))"
      by simp
  qed
  show ?case
  proof (cases "m_class ?n")
    case Fallback
    with d Fallback_loop_terminates [OF kids, of "print_line ''Running FALLBACK'' w"] show ?thesis
      by simp
  next
    case Sequence
    with d Sequence_loop_terminates [OF kids, of "print_line ''Running SEQUENCE'' w"] show ?thesis
      by simp
  qed (use d in simp_all)
qed

subsection \<open>The loops of the control nodes\<close>

lemma Sequence_loop_until: "Sequence_loop k dt cs w = loop_until FAILURE SUCCESS k dt cs w"
  by (induction cs arbitrary: w) (simp_all split: option.splits sum.splits)

lemma Fallback_loop_until: "Fallback_loop k dt cs w = loop_until SUCCESS FAILURE k dt cs w"
  by (induction cs arbitrary: w) (simp_all split: option.splits sum.splits)

lemma invoke_in_order_Cons_iff:
  "invoke_in_order k dt (c # cs) w = Some (Inr (sts, w')) \<longleftrightarrow>
     (\<exists>s w1 ss. update k dt c w = Some (Inr (s, w1)) \<and>
        invoke_in_order k dt cs w1 = Some (Inr (ss, w')) \<and> sts = s # ss)"
  by (auto split: option.splits sum.splits)

lemma invoke_in_order_single:
  "invoke_in_order k dt [c] w = Some (Inr ([s], w')) \<longleftrightarrow> update k dt c w = Some (Inr (s, w'))"
  by (auto split: option.splits sum.splits)

lemma update_not_stop:
  assumes "opposite stop other" and "update k dt c w = Some (Inr (s, w1))" and "s \<noteq> stop"
  shows "s = other"
  using assms update_status [OF assms(2)] by (cases s; cases stop; cases other) (simp_all add: opposite_def)

lemma loop_until_Cons_iff:
  assumes "opposite stop other"
  shows "loop_until stop other k dt (c # cs) w = Some (Inr (st, w')) \<longleftrightarrow>
     (\<exists>s w1. update k dt c w = Some (Inr (s, w1)) \<and>
        (if s = stop then st = stop \<and> w' = w1
         else s = other \<and> loop_until stop other k dt cs w1 = Some (Inr (st, w'))))"
proof (cases "update k dt c w")
  case None
  then show ?thesis by simp
next
  case (Some r)
  show ?thesis
  proof (cases r)
    case (Inl f)
    with Some show ?thesis by simp
  next
    case (Inr q)
    obtain s w1 where q: "q = (s, w1)" by (cases q)
    with Some Inr have u: "update k dt c w = Some (Inr (s, w1))" by simp
    show ?thesis
    proof (cases "s = stop")
      case True
      with u show ?thesis by auto
    next
      case False
      with update_not_stop [OF assms u] have "s = other" by simp
      with u False show ?thesis by simp
    qed
  qed
qed

lemma loop_until_char:
  assumes opp: "opposite stop other"
  shows "loop_until stop other k dt cs w = Some (Inr (st, w')) \<longleftrightarrow>
     (st = other \<and>
        invoke_in_order k dt cs w = Some (Inr (replicate (length cs) other, w'))) \<or>
     (st = stop \<and>
        (\<exists>pre c post. cs = pre @ c # post \<and>
           invoke_in_order k dt (pre @ [c]) w
             = Some (Inr (replicate (length pre) other @ [stop], w'))))"
proof (induction cs arbitrary: w)
  case Nil
  show ?case by auto
next
  case (Cons c cs)
  note IH = Cons.IH
  have ne: "other \<noteq> stop" using opp by (auto simp: opposite_def)
  show ?case (is "?L \<longleftrightarrow> ?R1 \<or> ?R2")
  proof
    assume ?L
    then obtain s w1 where u: "update k dt c w = Some (Inr (s, w1))"
      and rest: "if s = stop then st = stop \<and> w' = w1
         else s = other \<and> loop_until stop other k dt cs w1 = Some (Inr (st, w'))"
      unfolding loop_until_Cons_iff [OF opp] by blast
    show "?R1 \<or> ?R2"
    proof (cases "s = stop")
      case True
      with u rest have "invoke_in_order k dt ([] @ [c]) w
          = Some (Inr (replicate (length ([]::t_nodeRawPtr list)) other @ [stop], w'))"
        by simp
      moreover have "c # cs = [] @ c # cs" by simp
      moreover from True rest have "st = stop" by simp
      ultimately have ?R2 by blast
      then show ?thesis ..
    next
      case False
      with rest have s: "s = other" and l: "loop_until stop other k dt cs w1 = Some (Inr (st, w'))"
        by simp_all
      from l IH [of w1] consider
        (a) "st = other" "invoke_in_order k dt cs w1 = Some (Inr (replicate (length cs) other, w'))"
        | (b) pre c' post where "st = stop" "cs = pre @ c' # post"
            "invoke_in_order k dt (pre @ [c']) w1 = Some (Inr (replicate (length pre) other @ [stop], w'))"
        by blast
      then show ?thesis
      proof cases
        case a
        with u s have ?R1 by simp
        then show ?thesis ..
      next
        case b
        with u s have "invoke_in_order k dt ((c # pre) @ [c']) w
            = Some (Inr (replicate (length (c # pre)) other @ [stop], w'))"
          by simp
        moreover have "c # cs = (c # pre) @ c' # post" using b(2) by simp
        ultimately have ?R2 using b(1) by blast
        then show ?thesis ..
      qed
    qed
  next
    assume "?R1 \<or> ?R2"
    then show ?L
    proof
      assume ?R1
      then have st: "st = other"
        and inv: "invoke_in_order k dt (c # cs) w = Some (Inr (other # replicate (length cs) other, w'))"
        by simp_all
      from inv obtain w1 where u: "update k dt c w = Some (Inr (other, w1))"
        and r: "invoke_in_order k dt cs w1 = Some (Inr (replicate (length cs) other, w'))"
        unfolding invoke_in_order_Cons_iff by auto
      from r st IH [of w1] have "loop_until stop other k dt cs w1 = Some (Inr (st, w'))"
        by blast
      with u ne show ?L
        unfolding loop_until_Cons_iff [OF opp] by simp
    next
      assume ?R2
      then obtain pre c' post where st: "st = stop" and split: "c # cs = pre @ c' # post"
        and inv: "invoke_in_order k dt (pre @ [c']) w
                    = Some (Inr (replicate (length pre) other @ [stop], w'))"
        by blast
      show ?L
      proof (cases pre)
        case Nil
        with split have "c' = c" by simp
        with inv Nil have "invoke_in_order k dt [c] w = Some (Inr ([stop], w'))"
          by (simp del: invoke_in_order.simps)
        then have "update k dt c w = Some (Inr (stop, w'))"
          by (simp only: invoke_in_order_single)
        with st show ?L
          unfolding loop_until_Cons_iff [OF opp] by simp
      next
        case (Cons x pre')
        with split have x: "x = c" and cs: "cs = pre' @ c' # post" by simp_all
        from inv Cons x have "invoke_in_order k dt (c # (pre' @ [c'])) w
            = Some (Inr (other # (replicate (length pre') other @ [stop]), w'))"
          by simp
        then obtain w1 where u: "update k dt c w = Some (Inr (other, w1))"
          and r: "invoke_in_order k dt (pre' @ [c']) w1
                    = Some (Inr (replicate (length pre') other @ [stop], w'))"
          unfolding invoke_in_order_Cons_iff by auto
        from cs r st IH [of w1] have "loop_until stop other k dt cs w1 = Some (Inr (st, w'))"
          by blast
        with u ne show ?L
          unfolding loop_until_Cons_iff [OF opp] by simp
      qed
    qed
  qed
qed

lemma map_result_Inr_iff:
  "map_result g r = Some (Inr (st, w')) \<longleftrightarrow> (\<exists>x. r = Some (Inr (st, x)) \<and> w' = g x)"
proof (cases r)
  case None
  then show ?thesis by simp
next
  case (Some a)
  show ?thesis
  proof (cases a)
    case (Inl f)
    with Some show ?thesis by simp
  next
    case (Inr q)
    with Some show ?thesis by (cases q) auto
  qed
qed

lemma update_indep:
  assumes u: "update k dt p w = Some (Inr (st, w'))" and b: "bt v = bt w"
  shows "\<exists>v'. update k dt p v = Some (Inr (st, v'))"
proof -
  let ?base = "w\<lparr>cout := []\<rparr>"
  have vb: "v\<lparr>cout := []\<rparr> = ?base" using b by simp
  have "update k dt p w = map_result (prepend_out (cout w)) (update k dt p ?base)"
    using update_prepend [of k dt p "cout w" ?base] by (simp only: world_split)
  with u obtain x where x: "update k dt p ?base = Some (Inr (st, x))"
    by (auto simp: map_result_Inr_iff)
  have "update k dt p v = map_result (prepend_out (cout v)) (update k dt p (v\<lparr>cout := []\<rparr>))"
    using update_prepend [of k dt p "cout v" "v\<lparr>cout := []\<rparr>"] by (simp only: world_split)
  with x vb show ?thesis by simp
qed

lemma loop_until_other_children:
  assumes opp: "opposite stop other"
  shows "loop_until stop other k dt cs w = Some (Inr (other, w')) \<Longrightarrow> c \<in> set cs \<Longrightarrow> bt v = bt w
    \<Longrightarrow> \<exists>v'. update k dt c v = Some (Inr (other, v'))"
proof (induction cs arbitrary: w)
  case Nil
  then show ?case by simp
next
  case (Cons c0 cs)
  have ne: "other \<noteq> stop" using opp by (auto simp: opposite_def)
  from Cons.prems(1) obtain s w1 where u: "update k dt c0 w = Some (Inr (s, w1))"
    and rest: "if s = stop then other = stop \<and> w' = w1
         else s = other \<and> loop_until stop other k dt cs w1 = Some (Inr (other, w'))"
    unfolding loop_until_Cons_iff [OF opp] by blast
  from rest ne have s: "s = other" and l: "loop_until stop other k dt cs w1 = Some (Inr (other, w'))"
    by (auto split: if_splits)
  show ?case
  proof (cases "c = c0")
    case True
    with u s update_indep [OF u Cons.prems(3)] show ?thesis by simp
  next
    case False
    with Cons.prems(2) have "c \<in> set cs" by simp
    moreover have "bt v = bt w1" using Cons.prems(3) update_bt [OF u] by simp
    ultimately show ?thesis using Cons.IH [OF l] by blast
  qed
qed

lemma loop_until_all_other:
  assumes opp: "opposite stop other"
  shows "\<forall>c\<in>set cs. \<exists>v'. update k dt c w0 = Some (Inr (other, v')) \<Longrightarrow> bt w = bt w0
    \<Longrightarrow> \<exists>w'. loop_until stop other k dt cs w = Some (Inr (other, w'))"
proof (induction cs arbitrary: w)
  case Nil
  show ?case by simp
next
  case (Cons c cs)
  have ne: "other \<noteq> stop" using opp by (auto simp: opposite_def)
  from Cons.prems(1) obtain v' where "update k dt c w0 = Some (Inr (other, v'))" by auto
  from update_indep [OF this Cons.prems(2)] obtain w1 where u: "update k dt c w = Some (Inr (other, w1))"
    by blast
  have "bt w1 = bt w0" using update_bt [OF u] Cons.prems(2) by simp
  moreover have "\<forall>c\<in>set cs. \<exists>v'. update k dt c w0 = Some (Inr (other, v'))"
    using Cons.prems(1) by simp
  ultimately obtain w' where "loop_until stop other k dt cs w1 = Some (Inr (other, w'))"
    using Cons.IH [of w1] by blast
  with u ne show ?case by simp
qed

lemma common_bound:
  "\<forall>c\<in>set cs. \<exists>k w'. update k dt c w = Some (Inr (s, w'))
    \<Longrightarrow> \<exists>K. \<forall>c\<in>set cs. \<exists>w'. update K dt c w = Some (Inr (s, w'))"
proof (induction cs)
  case Nil
  show ?case by simp
next
  case (Cons c cs)
  from Cons.prems obtain k1 w1 where u: "update k1 dt c w = Some (Inr (s, w1))" by auto
  from Cons obtain K where K: "\<forall>c\<in>set cs. \<exists>w'. update K dt c w = Some (Inr (s, w'))" by auto
  have "\<forall>c'\<in>set (c # cs). \<exists>w'. update (max k1 K) dt c' w = Some (Inr (s, w'))"
  proof
    fix c' assume "c' \<in> set (c # cs)"
    then consider "c' = c" | "c' \<in> set cs" by auto
    then show "\<exists>w'. update (max k1 K) dt c' w = Some (Inr (s, w'))"
    proof cases
      case 1
      with update_mono [OF u, of "max k1 K"] show ?thesis by simp
    next
      case 2
      with K obtain w2 where "update K dt c' w = Some (Inr (s, w2))" by blast
      from update_mono [OF this, of "max k1 K"] show ?thesis by simp
    qed
  qed
  then show ?case ..
qed

lemma loop_until_other_iff:
  assumes opp: "opposite stop other"
  shows "(\<exists>k w'. loop_until stop other k dt cs (print_line s w) = Some (Inr (other, w'))) \<longleftrightarrow>
         (\<forall>c\<in>set cs. \<exists>k w'. update k dt c w = Some (Inr (other, w')))"
proof
  assume "\<exists>k w'. loop_until stop other k dt cs (print_line s w) = Some (Inr (other, w'))"
  then obtain k w' where l: "loop_until stop other k dt cs (print_line s w) = Some (Inr (other, w'))"
    by blast
  show "\<forall>c\<in>set cs. \<exists>k w'. update k dt c w = Some (Inr (other, w'))"
  proof
    fix c assume "c \<in> set cs"
    from loop_until_other_children [OF opp l this, of w] show "\<exists>k w'. update k dt c w = Some (Inr (other, w'))"
      by auto
  qed
next
  assume "\<forall>c\<in>set cs. \<exists>k w'. update k dt c w = Some (Inr (other, w'))"
  from common_bound [OF this] obtain K
    where "\<forall>c\<in>set cs. \<exists>w'. update K dt c w = Some (Inr (other, w'))" ..
  from loop_until_all_other [OF opp this, of "print_line s w"]
  show "\<exists>k w'. loop_until stop other k dt cs (print_line s w) = Some (Inr (other, w'))"
    by auto
qed

subsection \<open>Repeated evaluation\<close>

lemma update_shift:
  assumes u: "update k dt p w = Some (Inr (st, v))" and b: "bt u = bt w"
  shows "update k dt p u = Some (Inr (st, v\<lparr>cout := cout u @ written w v\<rparr>))"
proof -
  let ?base = "w\<lparr>cout := []\<rparr>"
  have ub: "u\<lparr>cout := []\<rparr> = ?base" using b by simp
  have "update k dt p w = map_result (prepend_out (cout w)) (update k dt p ?base)"
    using update_prepend [of k dt p "cout w" ?base] by (simp only: world_split)
  with u obtain x where x: "update k dt p ?base = Some (Inr (st, x))"
    and v: "v = prepend_out (cout w) x"
    by (auto simp: map_result_Inr_iff)
  have "update k dt p u = map_result (prepend_out (cout u)) (update k dt p (u\<lparr>cout := []\<rparr>))"
    using update_prepend [of k dt p "cout u" "u\<lparr>cout := []\<rparr>"] by (simp only: world_split)
  with x ub have "update k dt p u = Some (Inr (st, prepend_out (cout u) x))" by simp
  moreover have "prepend_out (cout u) x = v\<lparr>cout := cout u @ written w v\<rparr>"
    using v by (simp add: prepend_out_def written_def)
  ultimately show ?thesis by simp
qed

subsection \<open>Invariants of host programs\<close>

lemma step_update_bt:
  "step k (Update this dt) w = Some (Inr w') \<Longrightarrow> bt w' = bt w"
  by (auto split: option.splits sum.splits dest: update_bt)

lemma step_run_bt:
  "step k (Run dt) w = Some (Inr w') \<Longrightarrow> bt w' = bt w"
  by (auto simp: run_def split: option.splits sum.splits dest: update_bt)

lemma call_addChildren_Inr:
  "call_addChildren this c t = Inr t' \<Longrightarrow>
     \<exists>a. this = Some a \<and> a < length (m_nodes t) \<and>
         t' = t\<lparr>m_nodes := (m_nodes t)[a := addChildren c (m_nodes t ! a)]\<rparr>"
  by (auto simp: call_addChildren_def split: option.splits if_splits)

lemma step_children_prefix:
  assumes "step k call w = Some (Inr w')"
  shows "length (m_nodes (bt w)) \<le> length (m_nodes (bt w')) \<and>
         (\<forall>b < length (m_nodes (bt w)).
            prefix (getChildren (m_nodes (bt w) ! b)) (getChildren (m_nodes (bt w') ! b)))"
proof (cases call)
  case (Create cls)
  with assms show ?thesis by (auto simp: create_def nth_append)
next
  case (AddChildren this c)
  with assms obtain t' where t': "call_addChildren this c (bt w) = Inr t'" and w': "w' = w\<lparr>bt := t'\<rparr>"
    by (auto split: sum.splits)
  from call_addChildren_Inr [OF t'] obtain a where a: "a < length (m_nodes (bt w))"
    and t: "t' = (bt w)\<lparr>m_nodes := (m_nodes (bt w))[a := addChildren c (m_nodes (bt w) ! a)]\<rparr>"
    by blast
  show ?thesis
    using a unfolding w' t by (auto simp: nth_list_update getChildren_def addChildren_def)
next
  case (SetRoot node)
  with assms show ?thesis by (auto simp: setRoot_def)
next
  case (Run dt)
  with assms step_run_bt [of k dt w w'] show ?thesis by simp
next
  case (Update this dt)
  with assms step_update_bt [of k this dt w w'] show ?thesis by simp
qed

lemma exec_children_prefix:
  "exec k calls w = Some (Inr w') \<Longrightarrow>
     length (m_nodes (bt w)) \<le> length (m_nodes (bt w')) \<and>
     (\<forall>b < length (m_nodes (bt w)).
        prefix (getChildren (m_nodes (bt w) ! b)) (getChildren (m_nodes (bt w') ! b)))"
proof (induction calls arbitrary: w)
  case Nil
  then show ?case by simp
next
  case (Cons c calls)
  from Cons.prems obtain w1 where s: "step k c w = Some (Inr w1)" and e: "exec k calls w1 = Some (Inr w')"
    by (auto split: option.splits sum.splits)
  note A = step_children_prefix [OF s]
  note B = Cons.IH [OF e]
  show ?case
  proof (intro conjI allI impI)
    from A B show "length (m_nodes (bt w)) \<le> length (m_nodes (bt w'))" by simp
  next
    fix b assume b: "b < length (m_nodes (bt w))"
    with A have 1: "prefix (getChildren (m_nodes (bt w) ! b)) (getChildren (m_nodes (bt w1) ! b))"
      by blast
    from b A have "b < length (m_nodes (bt w1))" by simp
    with B have "prefix (getChildren (m_nodes (bt w1) ! b)) (getChildren (m_nodes (bt w') ! b))"
      by blast
    with 1 show "prefix (getChildren (m_nodes (bt w) ! b)) (getChildren (m_nodes (bt w') ! b))"
      by (rule prefix_order.trans)
  qed
qed

lemma m_parent_construct: "m_parent (construct cls) = None"
  by (cases cls) (simp_all add: IBehaviorTreeNode_ctor_def)

lemma step_parent:
  assumes "step k call w = Some (Inr w')" and inv: "\<forall>n\<in>set (m_nodes (bt w)). m_parent n = None"
  shows "\<forall>n\<in>set (m_nodes (bt w')). m_parent n = None"
proof (cases call)
  case (Create cls)
  with assms show ?thesis by (auto simp: create_def m_parent_construct)
next
  case (AddChildren this c)
  with assms obtain t' where t': "call_addChildren this c (bt w) = Inr t'" and w': "w' = w\<lparr>bt := t'\<rparr>"
    by (auto split: sum.splits)
  from call_addChildren_Inr [OF t'] obtain a where a: "a < length (m_nodes (bt w))"
    and t: "t' = (bt w)\<lparr>m_nodes := (m_nodes (bt w))[a := addChildren c (m_nodes (bt w) ! a)]\<rparr>"
    by blast
  have new: "m_parent (addChildren c (m_nodes (bt w) ! a)) = None"
    using a inv by (simp add: addChildren_def)
  show ?thesis
  proof
    fix n assume "n \<in> set (m_nodes (bt w'))"
    then have "n \<in> insert (addChildren c (m_nodes (bt w) ! a)) (set (m_nodes (bt w)))"
      unfolding w' t using set_update_subset_insert [of "m_nodes (bt w)" a] by auto
    with new inv show "m_parent n = None" by auto
  qed
next
  case (SetRoot node)
  with assms show ?thesis by (auto simp: setRoot_def)
next
  case (Run dt)
  with assms step_run_bt [of k dt w w'] show ?thesis by simp
next
  case (Update this dt)
  with assms step_update_bt [of k this dt w w'] show ?thesis by simp
qed

lemma exec_parent:
  "exec k calls w = Some (Inr w') \<Longrightarrow> \<forall>n\<in>set (m_nodes (bt w)). m_parent n = None
    \<Longrightarrow> \<forall>n\<in>set (m_nodes (bt w')). m_parent n = None"
proof (induction calls arbitrary: w)
  case Nil
  then show ?case by simp
next
  case (Cons c calls)
  from Cons.prems(1) obtain w1 where s: "step k c w = Some (Inr w1)" and e: "exec k calls w1 = Some (Inr w')"
    by (auto split: option.splits sum.splits)
  from Cons.IH [OF e step_parent [OF s Cons.prems(2)]] show ?case .
qed

lemma step_root:
  assumes "step k call w = Some (Inr w')" and "\<not> is_SetRoot call"
  shows "m_root (bt w') = m_root (bt w)"
proof (cases call)
  case (Create cls)
  with assms show ?thesis by (auto simp: create_def)
next
  case (AddChildren this c)
  with assms show ?thesis
    by (auto split: sum.splits dest!: call_addChildren_Inr)
next
  case (SetRoot node)
  with assms show ?thesis by simp
next
  case (Run dt)
  with assms step_run_bt [of k dt w w'] show ?thesis by simp
next
  case (Update this dt)
  with assms step_update_bt [of k this dt w w'] show ?thesis by simp
qed

lemma exec_root:
  "exec k calls w = Some (Inr w') \<Longrightarrow> \<not> list_ex is_SetRoot calls
    \<Longrightarrow> m_root (bt w') = m_root (bt w)"
proof (induction calls arbitrary: w)
  case Nil
  then show ?case by simp
next
  case (Cons c calls)
  from Cons.prems(1) obtain w1 where s: "step k c w = Some (Inr w1)" and e: "exec k calls w1 = Some (Inr w')"
    by (auto split: option.splits sum.splits)
  from Cons.prems(2) have c: "\<not> is_SetRoot c" and r: "\<not> list_ex is_SetRoot calls" by simp_all
  from Cons.IH [OF e r] step_root [OF s c] show ?case by simp
qed

section \<open>The claims\<close>

subsection \<open>Sequence\<close>

text \<open>
  Claim C1. Let the node be a Sequence. It returns SUCCESS exactly when every one of
  its children evaluates to SUCCESS. Its evaluation invokes the children in list order:
  it returns SUCCESS after all of them were invoked one after the other and each
  returned SUCCESS, and it returns FAILURE after the children up to the first one that
  returned FAILURE were invoked in order, all before it returning SUCCESS. In the
  second case the world it returns is the one that this child left, so no later child
  was invoked, whatever the later pointers are.
\<close>

theorem Sequence_update:
  assumes "deref (m_nodes (bt w)) this = Inr n" and "m_class n = Sequence"
  shows "((\<exists>k w'. update k dt this w = Some (Inr (SUCCESS, w'))) \<longleftrightarrow>
            (\<forall>c\<in>set (m_children n). \<exists>k w'. update k dt c w = Some (Inr (SUCCESS, w')))) \<and>
         (update (Suc k) dt this w = Some (Inr (st, w')) \<longleftrightarrow>
            (st = SUCCESS \<and>
               invoke_in_order k dt (m_children n) (print_line ''Running SEQUENCE'' w)
                 = Some (Inr (replicate (length (m_children n)) SUCCESS, w'))) \<or>
            (st = FAILURE \<and>
               (\<exists>pre c post. m_children n = pre @ c # post \<and>
                  invoke_in_order k dt (pre @ [c]) (print_line ''Running SEQUENCE'' w)
                    = Some (Inr (replicate (length pre) SUCCESS @ [FAILURE], w')))))"
proof
  have opp: "opposite FAILURE SUCCESS" by (simp add: opposite_def)
  have step: "update (Suc j) dt this w
      = loop_until FAILURE SUCCESS j dt (m_children n) (print_line ''Running SEQUENCE'' w)" for j
    using assms by (simp add: Sequence_loop_until)
  have "(\<exists>k w'. update k dt this w = Some (Inr (SUCCESS, w'))) \<longleftrightarrow>
        (\<exists>j w'. update (Suc j) dt this w = Some (Inr (SUCCESS, w')))"
  proof
    assume "\<exists>k w'. update k dt this w = Some (Inr (SUCCESS, w'))"
    then obtain k w' where u: "update k dt this w = Some (Inr (SUCCESS, w'))" by blast
    then obtain j where "k = Suc j" by (cases k) simp_all
    with u show "\<exists>j w'. update (Suc j) dt this w = Some (Inr (SUCCESS, w'))" by blast
  qed blast
  also have "\<dots> \<longleftrightarrow> (\<forall>c\<in>set (m_children n). \<exists>k w'. update k dt c w = Some (Inr (SUCCESS, w')))"
    unfolding step by (rule loop_until_other_iff [OF opp])
  finally show "(\<exists>k w'. update k dt this w = Some (Inr (SUCCESS, w'))) \<longleftrightarrow>
            (\<forall>c\<in>set (m_children n). \<exists>k w'. update k dt c w = Some (Inr (SUCCESS, w')))" .
  show "update (Suc k) dt this w = Some (Inr (st, w')) \<longleftrightarrow>
            (st = SUCCESS \<and>
               invoke_in_order k dt (m_children n) (print_line ''Running SEQUENCE'' w)
                 = Some (Inr (replicate (length (m_children n)) SUCCESS, w'))) \<or>
            (st = FAILURE \<and>
               (\<exists>pre c post. m_children n = pre @ c # post \<and>
                  invoke_in_order k dt (pre @ [c]) (print_line ''Running SEQUENCE'' w)
                    = Some (Inr (replicate (length pre) SUCCESS @ [FAILURE], w'))))"
    unfolding step by (rule loop_until_char [OF opp])
qed

theorem Sequence_update_witness:
  "(let ns = [addChildren None (addChildren (Some 2) (addChildren (Some 1) (construct Sequence))),
              construct Uno, construct Esto,
              addChildren (Some 1) (addChildren (Some 1) (construct Sequence))];
        w = \<lparr>bt = \<lparr>m_root = Some 0, m_nodes = ns\<rparr>, cout = []\<rparr>;
        w1 = \<lparr>bt = \<lparr>m_root = Some 0, m_nodes = ns\<rparr>,
               cout = [''Running SEQUENCE'', ''Uno -> SUCCESS'', ''Esto -> FAILURE'']\<rparr>;
        w2 = \<lparr>bt = \<lparr>m_root = Some 0, m_nodes = ns\<rparr>,
               cout = [''Running SEQUENCE'', ''Uno -> SUCCESS'', ''Uno -> SUCCESS'']\<rparr>
    in deref ns (Some 0) = Inr (ns ! 0) \<and> m_class (ns ! 0) = Sequence \<and>
       m_children (ns ! 0) = [Some 1, Some 2, None] \<and>
       update (Suc (Suc 0)) () (Some 0) w = Some (Inr (FAILURE, w1)) \<and>
       (\<exists>pre c post. m_children (ns ! 0) = pre @ c # post \<and>
          invoke_in_order (Suc 0) () (pre @ [c]) (print_line ''Running SEQUENCE'' w)
            = Some (Inr (replicate (length pre) SUCCESS @ [FAILURE], w1))) \<and>
       deref ns (Some 3) = Inr (ns ! 3) \<and> m_class (ns ! 3) = Sequence \<and>
       update (Suc (Suc 0)) () (Some 3) w = Some (Inr (SUCCESS, w2)) \<and>
       (\<forall>c\<in>set (m_children (ns ! 3)). \<exists>k w'. update k () c w = Some (Inr (SUCCESS, w'))))"
proof -
  let ?ns = "[addChildren None (addChildren (Some 2) (addChildren (Some 1) (construct Sequence))),
              construct Uno, construct Esto,
              addChildren (Some 1) (addChildren (Some 1) (construct Sequence))]"
  let ?w = "\<lparr>bt = \<lparr>m_root = Some 0, m_nodes = ?ns\<rparr>, cout = []\<rparr>"
  let ?w1 = "\<lparr>bt = \<lparr>m_root = Some 0, m_nodes = ?ns\<rparr>,
               cout = [''Running SEQUENCE'', ''Uno -> SUCCESS'', ''Esto -> FAILURE'']\<rparr>"
  let ?w2 = "\<lparr>bt = \<lparr>m_root = Some 0, m_nodes = ?ns\<rparr>,
               cout = [''Running SEQUENCE'', ''Uno -> SUCCESS'', ''Uno -> SUCCESS'']\<rparr>"
  have d0: "deref (m_nodes (bt ?w)) (Some 0) = Inr (?ns ! 0)"
    by (simp add: deref_def)
  have c0: "m_class (?ns ! 0) = Sequence"
    by (simp add: addChildren_def IBehaviorTreeNode_ctor_def)
  have k0: "m_children (?ns ! 0) = [Some 1, Some 2, None]"
    by (simp add: addChildren_def IBehaviorTreeNode_ctor_def)
  have u0: "update (Suc (Suc 0)) () (Some 0) ?w = Some (Inr (FAILURE, ?w1))"
    by (simp add: deref_def print_line_def addChildren_def IBehaviorTreeNode_ctor_def)
  have d3: "deref (m_nodes (bt ?w)) (Some 3) = Inr (?ns ! 3)"
    by (simp add: deref_def)
  have c3: "m_class (?ns ! 3) = Sequence"
    by (simp add: addChildren_def IBehaviorTreeNode_ctor_def)
  have u3: "update (Suc (Suc 0)) () (Some 3) ?w = Some (Inr (SUCCESS, ?w2))"
    by (simp add: deref_def print_line_def addChildren_def IBehaviorTreeNode_ctor_def)
  note T0 = Sequence_update [where k = "Suc 0" and st = FAILURE and w' = ?w1 and dt = "()", OF d0 c0]
  note T3 = Sequence_update [where k = "Suc 0" and st = SUCCESS and w' = ?w2 and dt = "()", OF d3 c3]
  from T0 u0 have e0: "\<exists>pre c post. m_children (?ns ! 0) = pre @ c # post \<and>
          invoke_in_order (Suc 0) () (pre @ [c]) (print_line ''Running SEQUENCE'' ?w)
            = Some (Inr (replicate (length pre) SUCCESS @ [FAILURE], ?w1))"
    by blast
  from T3 u3 have e3: "\<forall>c\<in>set (m_children (?ns ! 3)). \<exists>k w'. update k () c ?w = Some (Inr (SUCCESS, w'))"
    by blast
  from d0 c0 k0 u0 e0 d3 c3 u3 e3 show ?thesis
    unfolding Let_def by (intro conjI) simp_all
qed

subsection \<open>Fallback\<close>

text \<open>
  Claim C2. Let the node be a Fallback. It returns FAILURE exactly when every one of
  its children evaluates to FAILURE. Its evaluation invokes the children in list order:
  it returns SUCCESS after the children up to the first one that returned SUCCESS were
  invoked in order, all before it returning FAILURE, and the world it returns is the
  one that this child left, so no later child was invoked; it returns FAILURE after all
  children were invoked one after the other and each returned FAILURE.
\<close>

theorem Fallback_update:
  assumes "deref (m_nodes (bt w)) this = Inr n" and "m_class n = Fallback"
  shows "((\<exists>k w'. update k dt this w = Some (Inr (FAILURE, w'))) \<longleftrightarrow>
            (\<forall>c\<in>set (m_children n). \<exists>k w'. update k dt c w = Some (Inr (FAILURE, w')))) \<and>
         (update (Suc k) dt this w = Some (Inr (st, w')) \<longleftrightarrow>
            (st = FAILURE \<and>
               invoke_in_order k dt (m_children n) (print_line ''Running FALLBACK'' w)
                 = Some (Inr (replicate (length (m_children n)) FAILURE, w'))) \<or>
            (st = SUCCESS \<and>
               (\<exists>pre c post. m_children n = pre @ c # post \<and>
                  invoke_in_order k dt (pre @ [c]) (print_line ''Running FALLBACK'' w)
                    = Some (Inr (replicate (length pre) FAILURE @ [SUCCESS], w')))))"
proof
  have opp: "opposite SUCCESS FAILURE" by (simp add: opposite_def)
  have step: "update (Suc j) dt this w
      = loop_until SUCCESS FAILURE j dt (m_children n) (print_line ''Running FALLBACK'' w)" for j
    using assms by (simp add: Fallback_loop_until)
  have "(\<exists>k w'. update k dt this w = Some (Inr (FAILURE, w'))) \<longleftrightarrow>
        (\<exists>j w'. update (Suc j) dt this w = Some (Inr (FAILURE, w')))"
  proof
    assume "\<exists>k w'. update k dt this w = Some (Inr (FAILURE, w'))"
    then obtain k w' where u: "update k dt this w = Some (Inr (FAILURE, w'))" by blast
    then obtain j where "k = Suc j" by (cases k) simp_all
    with u show "\<exists>j w'. update (Suc j) dt this w = Some (Inr (FAILURE, w'))" by blast
  qed blast
  also have "\<dots> \<longleftrightarrow> (\<forall>c\<in>set (m_children n). \<exists>k w'. update k dt c w = Some (Inr (FAILURE, w')))"
    unfolding step by (rule loop_until_other_iff [OF opp])
  finally show "(\<exists>k w'. update k dt this w = Some (Inr (FAILURE, w'))) \<longleftrightarrow>
            (\<forall>c\<in>set (m_children n). \<exists>k w'. update k dt c w = Some (Inr (FAILURE, w')))" .
  show "update (Suc k) dt this w = Some (Inr (st, w')) \<longleftrightarrow>
            (st = FAILURE \<and>
               invoke_in_order k dt (m_children n) (print_line ''Running FALLBACK'' w)
                 = Some (Inr (replicate (length (m_children n)) FAILURE, w'))) \<or>
            (st = SUCCESS \<and>
               (\<exists>pre c post. m_children n = pre @ c # post \<and>
                  invoke_in_order k dt (pre @ [c]) (print_line ''Running FALLBACK'' w)
                    = Some (Inr (replicate (length pre) FAILURE @ [SUCCESS], w'))))"
    unfolding step by (rule loop_until_char [OF opp])
qed

theorem Fallback_update_witness:
  "(let ns = [addChildren None (addChildren (Some 2) (addChildren (Some 1) (construct Fallback))),
              construct Aquello, construct Dos,
              addChildren (Some 1) (addChildren (Some 1) (construct Fallback))];
        w = \<lparr>bt = \<lparr>m_root = Some 0, m_nodes = ns\<rparr>, cout = []\<rparr>;
        w1 = \<lparr>bt = \<lparr>m_root = Some 0, m_nodes = ns\<rparr>,
               cout = [''Running FALLBACK'', ''Aquello -> FAILURE'', ''Dos -> SUCCESS'']\<rparr>;
        w2 = \<lparr>bt = \<lparr>m_root = Some 0, m_nodes = ns\<rparr>,
               cout = [''Running FALLBACK'', ''Aquello -> FAILURE'', ''Aquello -> FAILURE'']\<rparr>
    in deref ns (Some 0) = Inr (ns ! 0) \<and> m_class (ns ! 0) = Fallback \<and>
       m_children (ns ! 0) = [Some 1, Some 2, None] \<and>
       update (Suc (Suc 0)) () (Some 0) w = Some (Inr (SUCCESS, w1)) \<and>
       (\<exists>pre c post. m_children (ns ! 0) = pre @ c # post \<and>
          invoke_in_order (Suc 0) () (pre @ [c]) (print_line ''Running FALLBACK'' w)
            = Some (Inr (replicate (length pre) FAILURE @ [SUCCESS], w1))) \<and>
       deref ns (Some 3) = Inr (ns ! 3) \<and> m_class (ns ! 3) = Fallback \<and>
       update (Suc (Suc 0)) () (Some 3) w = Some (Inr (FAILURE, w2)) \<and>
       (\<forall>c\<in>set (m_children (ns ! 3)). \<exists>k w'. update k () c w = Some (Inr (FAILURE, w'))))"
proof -
  let ?ns = "[addChildren None (addChildren (Some 2) (addChildren (Some 1) (construct Fallback))),
              construct Aquello, construct Dos,
              addChildren (Some 1) (addChildren (Some 1) (construct Fallback))]"
  let ?w = "\<lparr>bt = \<lparr>m_root = Some 0, m_nodes = ?ns\<rparr>, cout = []\<rparr>"
  let ?w1 = "\<lparr>bt = \<lparr>m_root = Some 0, m_nodes = ?ns\<rparr>,
               cout = [''Running FALLBACK'', ''Aquello -> FAILURE'', ''Dos -> SUCCESS'']\<rparr>"
  let ?w2 = "\<lparr>bt = \<lparr>m_root = Some 0, m_nodes = ?ns\<rparr>,
               cout = [''Running FALLBACK'', ''Aquello -> FAILURE'', ''Aquello -> FAILURE'']\<rparr>"
  have d0: "deref (m_nodes (bt ?w)) (Some 0) = Inr (?ns ! 0)"
    by (simp add: deref_def)
  have c0: "m_class (?ns ! 0) = Fallback"
    by (simp add: addChildren_def IBehaviorTreeNode_ctor_def)
  have k0: "m_children (?ns ! 0) = [Some 1, Some 2, None]"
    by (simp add: addChildren_def IBehaviorTreeNode_ctor_def)
  have u0: "update (Suc (Suc 0)) () (Some 0) ?w = Some (Inr (SUCCESS, ?w1))"
    by (simp add: deref_def print_line_def addChildren_def IBehaviorTreeNode_ctor_def)
  have d3: "deref (m_nodes (bt ?w)) (Some 3) = Inr (?ns ! 3)"
    by (simp add: deref_def)
  have c3: "m_class (?ns ! 3) = Fallback"
    by (simp add: addChildren_def IBehaviorTreeNode_ctor_def)
  have u3: "update (Suc (Suc 0)) () (Some 3) ?w = Some (Inr (FAILURE, ?w2))"
    by (simp add: deref_def print_line_def addChildren_def IBehaviorTreeNode_ctor_def)
  note T0 = Fallback_update [where k = "Suc 0" and st = SUCCESS and w' = ?w1 and dt = "()", OF d0 c0]
  note T3 = Fallback_update [where k = "Suc 0" and st = FAILURE and w' = ?w2 and dt = "()", OF d3 c3]
  from T0 u0 have e0: "\<exists>pre c post. m_children (?ns ! 0) = pre @ c # post \<and>
          invoke_in_order (Suc 0) () (pre @ [c]) (print_line ''Running FALLBACK'' ?w)
            = Some (Inr (replicate (length pre) FAILURE @ [SUCCESS], ?w1))"
    by blast
  from T3 u3 have e3: "\<forall>c\<in>set (m_children (?ns ! 3)). \<exists>k w'. update k () c ?w = Some (Inr (FAILURE, w'))"
    by blast
  from d0 c0 k0 u0 e0 d3 c3 u3 e3 show ?thesis
    unfolding Let_def by (intro conjI) simp_all
qed


subsection \<open>Empty control nodes\<close>

text \<open>
  Claim C4. Evaluating a Sequence node whose child list is empty returns SUCCESS, and
  evaluating a Fallback node whose child list is empty returns FAILURE. In both cases
  the only effect is the line that announces the control node.
\<close>

theorem empty_children:
  assumes "deref (m_nodes (bt w)) this = Inr n" and "m_children n = []"
  shows "(m_class n = Sequence \<longrightarrow>
            update (Suc k) dt this w = Some (Inr (SUCCESS, print_line ''Running SEQUENCE'' w))) \<and>
         (m_class n = Fallback \<longrightarrow>
            update (Suc k) dt this w = Some (Inr (FAILURE, print_line ''Running FALLBACK'' w)))"
  using assms by simp

theorem empty_children_witness:
  "update (Suc 0) () (Some 0) \<lparr>bt = \<lparr>m_root = None, m_nodes = [construct Sequence, construct Fallback]\<rparr>, cout = []\<rparr>
     = Some (Inr (SUCCESS, \<lparr>bt = \<lparr>m_root = None, m_nodes = [construct Sequence, construct Fallback]\<rparr>, cout = [''Running SEQUENCE'']\<rparr>))
   \<and> update (Suc 0) () (Some 1) \<lparr>bt = \<lparr>m_root = None, m_nodes = [construct Sequence, construct Fallback]\<rparr>, cout = []\<rparr>
     = Some (Inr (FAILURE, \<lparr>bt = \<lparr>m_root = None, m_nodes = [construct Sequence, construct Fallback]\<rparr>, cout = [''Running FALLBACK'']\<rparr>))"
  using empty_children [of "\<lparr>bt = \<lparr>m_root = None, m_nodes = [construct Sequence, construct Fallback]\<rparr>, cout = []\<rparr>" "Some 0" "construct Sequence" 0 "()"]
        empty_children [of "\<lparr>bt = \<lparr>m_root = None, m_nodes = [construct Sequence, construct Fallback]\<rparr>, cout = []\<rparr>" "Some 1" "construct Fallback" 0 "()"]
  by (simp add: deref_def IBehaviorTreeNode_ctor_def print_line_def)

subsection \<open>The tree of the main function\<close>

text \<open>
  Claim C5. The main function builds a Fallback (the root) over Esto, Aquello and a
  Sequence over Uno, Dos and Tres. One tick evaluates the root to SUCCESS. The two
  leading actions are invoked first and both report FAILURE, then the Sequence is
  attempted and its three children are invoked in order, each reporting SUCCESS. The
  output is the one quoted in the comment above the main function, for any
  indeterminate initial root, any time step and any depth bound of at least three.
\<close>

theorem main_tick:
  "(let T = \<lparr>m_root = Some 1, m_nodes =
       [\<lparr>m_class = Sequence, m_type = SEQUENCE, m_parent = None, m_children = [Some 4, Some 5, Some 6]\<rparr>,
        \<lparr>m_class = Fallback, m_type = FALLBACK, m_parent = None, m_children = [Some 2, Some 3, Some 0]\<rparr>,
        \<lparr>m_class = Esto, m_type = ACTION, m_parent = None, m_children = []\<rparr>,
        \<lparr>m_class = Aquello, m_type = ACTION, m_parent = None, m_children = []\<rparr>,
        \<lparr>m_class = Uno, m_type = ACTION, m_parent = None, m_children = []\<rparr>,
        \<lparr>m_class = Dos, m_type = ACTION, m_parent = None, m_children = []\<rparr>,
        \<lparr>m_class = Tres, m_type = ACTION, m_parent = None, m_children = []\<rparr>]\<rparr>;
        out1 = [''Running FALLBACK''];
        out2 = out1 @ [''Esto -> FAILURE'', ''Aquello -> FAILURE''];
        out3 = out2 @ [''Running SEQUENCE''];
        out4 = out3 @ [''Uno -> SUCCESS'', ''Dos -> SUCCESS'', ''Tres -> SUCCESS'']
    in main_tree indeterminate = Inr T \<and>
       update (Suc (Suc (Suc k))) dt (getRoot T) \<lparr>bt = T, cout = []\<rparr>
         = Some (Inr (SUCCESS, \<lparr>bt = T, cout = out4\<rparr>)) \<and>
       main (Suc (Suc (Suc k))) indeterminate dt = Some (Inr \<lparr>bt = T, cout = out4\<rparr>) \<and>
       invoke_in_order (Suc (Suc k)) dt [Some 2, Some 3] \<lparr>bt = T, cout = out1\<rparr>
         = Some (Inr ([FAILURE, FAILURE], \<lparr>bt = T, cout = out2\<rparr>)) \<and>
       invoke_in_order (Suc k) dt [Some 4, Some 5, Some 6] \<lparr>bt = T, cout = out3\<rparr>
         = Some (Inr ([SUCCESS, SUCCESS, SUCCESS], \<lparr>bt = T, cout = out4\<rparr>)))"
  by (simp add: main_def run_def getRoot_def deref_def print_line_def
      main_tree_def BehaviorTree_ctor_def create_def call_addChildren_def then_do_def
      setRoot_def addChildren_def IBehaviorTreeNode_ctor_def Let_def)

subsection \<open>Evaluation does not change the tree\<close>

text \<open>
  Claim C7. An evaluation that returns leaves the tree as it was: the root pointer and
  the stored nodes are the same, so every node has the same kind, the same parent
  pointer and the same ordered child list after \<^verbatim>\<open>update\<close> as before. The only
  effect is that lines are appended to the output. The same holds for a tick of the
  whole tree.
\<close>

theorem update_preserves_tree:
  "(update k dt p w = Some (Inr (st, w')) \<longrightarrow>
      bt w' = bt w \<and>
      (\<forall>a < length (m_nodes (bt w)).
         getNodeType (m_nodes (bt w') ! a) = getNodeType (m_nodes (bt w) ! a) \<and>
         getParent (m_nodes (bt w') ! a) = getParent (m_nodes (bt w) ! a) \<and>
         getChildren (m_nodes (bt w') ! a) = getChildren (m_nodes (bt w) ! a)) \<and>
      prefix (cout w) (cout w')) \<and>
   (run k dt w = Some (Inr w1) \<longrightarrow> bt w1 = bt w \<and> prefix (cout w) (cout w1))"
proof (intro conjI impI)
  assume u: "update k dt p w = Some (Inr (st, w'))"
  then show b: "bt w' = bt w" by (rule update_bt)
  then show "\<forall>a < length (m_nodes (bt w)).
         getNodeType (m_nodes (bt w') ! a) = getNodeType (m_nodes (bt w) ! a) \<and>
         getParent (m_nodes (bt w') ! a) = getParent (m_nodes (bt w) ! a) \<and>
         getChildren (m_nodes (bt w') ! a) = getChildren (m_nodes (bt w) ! a)"
    by simp
  from update_cout [OF u] show "prefix (cout w) (cout w')"
    by (metis prefixI)
next
  assume "run k dt w = Some (Inr w1)"
  then obtain s where r: "update k dt (m_root (bt w)) w = Some (Inr (s, w1))"
    by (auto simp: run_def split: option.splits sum.splits)
  from update_bt [OF r] show "bt w1 = bt w" .
  from update_cout [OF r] show "prefix (cout w) (cout w1)"
    by (metis prefixI)
qed

theorem update_preserves_tree_witness:
  "update (Suc (Suc 0)) () (Some 0)
      \<lparr>bt = \<lparr>m_root = Some 0, m_nodes = [addChildren (Some 2) (addChildren (Some 1) (construct Sequence)), construct Uno, construct Esto]\<rparr>, cout = []\<rparr>
    = Some (Inr (FAILURE, \<lparr>bt = \<lparr>m_root = Some 0, m_nodes = [addChildren (Some 2) (addChildren (Some 1) (construct Sequence)), construct Uno, construct Esto]\<rparr>,
                          cout = [''Running SEQUENCE'', ''Uno -> SUCCESS'', ''Esto -> FAILURE'']\<rparr>))
   \<and> run (Suc (Suc 0)) ()
      \<lparr>bt = \<lparr>m_root = Some 0, m_nodes = [addChildren (Some 2) (addChildren (Some 1) (construct Sequence)), construct Uno, construct Esto]\<rparr>, cout = []\<rparr>
    = Some (Inr \<lparr>bt = \<lparr>m_root = Some 0, m_nodes = [addChildren (Some 2) (addChildren (Some 1) (construct Sequence)), construct Uno, construct Esto]\<rparr>,
                          cout = [''Running SEQUENCE'', ''Uno -> SUCCESS'', ''Esto -> FAILURE'']\<rparr>)
   \<and> bt \<lparr>bt = \<lparr>m_root = Some 0, m_nodes = [addChildren (Some 2) (addChildren (Some 1) (construct Sequence)), construct Uno, construct Esto]\<rparr>,
                          cout = [''Running SEQUENCE'', ''Uno -> SUCCESS'', ''Esto -> FAILURE'']\<rparr>
     = \<lparr>m_root = Some 0, m_nodes = [addChildren (Some 2) (addChildren (Some 1) (construct Sequence)), construct Uno, construct Esto]\<rparr>"
proof -
  let ?T = "\<lparr>m_root = Some 0, m_nodes = [addChildren (Some 2) (addChildren (Some 1) (construct Sequence)), construct Uno, construct Esto]\<rparr>"
  let ?w = "\<lparr>bt = ?T, cout = []\<rparr>"
  let ?w' = "\<lparr>bt = ?T, cout = [''Running SEQUENCE'', ''Uno -> SUCCESS'', ''Esto -> FAILURE'']\<rparr>"
  have u: "update (Suc (Suc 0)) () (Some 0) ?w = Some (Inr (FAILURE, ?w'))"
    by (simp add: deref_def print_line_def addChildren_def IBehaviorTreeNode_ctor_def)
  have r: "run (Suc (Suc 0)) () ?w = Some (Inr ?w')"
    by (simp add: run_def deref_def print_line_def addChildren_def IBehaviorTreeNode_ctor_def)
  from update_preserves_tree [of "Suc (Suc 0)" "()" "Some 0" ?w FAILURE ?w' ?w'] u r
  show ?thesis by simp
qed

subsection \<open>The status UNKNOWN is never returned\<close>

text \<open>
  Claim C10. Every tree is built from the two control classes and the five example
  leaves. Whenever \<^verbatim>\<open>update\<close> returns, the status is SUCCESS or FAILURE, never
  UNKNOWN; and on a well-formed tree it does return, for every depth bound above the
  rank of the node.
\<close>

theorem update_never_UNKNOWN:
  "(update k dt p w = Some (Inr (st, w')) \<longrightarrow> st = SUCCESS \<or> st = FAILURE) \<and>
   (well_formed rank (m_nodes (bt w)) \<and> a < length (m_nodes (bt w)) \<and> rank a < k \<longrightarrow>
      (\<exists>st w'. update k dt (Some a) w = Some (Inr (st, w')) \<and> (st = SUCCESS \<or> st = FAILURE)))"
proof (intro conjI impI)
  assume "update k dt p w = Some (Inr (st, w'))"
  from update_status [OF this] show "st = SUCCESS \<or> st = FAILURE"
    by (cases st) simp_all
next
  assume "well_formed rank (m_nodes (bt w)) \<and> a < length (m_nodes (bt w)) \<and> rank a < k"
  then obtain s v where u: "update k dt (Some a) w = Some (Inr (s, v))"
    using update_terminates [of rank w a k dt] by blast
  from update_status [OF u] have "s = SUCCESS \<or> s = FAILURE"
    by (cases s) simp_all
  with u show "\<exists>st w'. update k dt (Some a) w = Some (Inr (st, w')) \<and> (st = SUCCESS \<or> st = FAILURE)"
    by blast
qed

theorem update_never_UNKNOWN_witness:
  "well_formed (\<lambda>a. if a = 0 then 1 else 0)
      [addChildren (Some 2) (addChildren (Some 1) (construct Fallback)), construct Aquello, construct Tres]
   \<and> update (Suc (Suc 0)) () (Some 0)
      \<lparr>bt = \<lparr>m_root = None, m_nodes = [addChildren (Some 2) (addChildren (Some 1) (construct Fallback)), construct Aquello, construct Tres]\<rparr>, cout = []\<rparr>
    = Some (Inr (SUCCESS, \<lparr>bt = \<lparr>m_root = None, m_nodes = [addChildren (Some 2) (addChildren (Some 1) (construct Fallback)), construct Aquello, construct Tres]\<rparr>,
                          cout = [''Running FALLBACK'', ''Aquello -> FAILURE'', ''Tres -> SUCCESS'']\<rparr>))"
proof -
  let ?ns = "[addChildren (Some 2) (addChildren (Some 1) (construct Fallback)), construct Aquello, construct Tres]"
  let ?w = "\<lparr>bt = \<lparr>m_root = None, m_nodes = ?ns\<rparr>, cout = []\<rparr>"
  let ?w' = "\<lparr>bt = \<lparr>m_root = None, m_nodes = ?ns\<rparr>, cout = [''Running FALLBACK'', ''Aquello -> FAILURE'', ''Tres -> SUCCESS'']\<rparr>"
  let ?rank = "\<lambda>a::nat. if a = 0 then 1 else (0::nat)"
  have wf: "well_formed ?rank ?ns"
    by (simp add: well_formed_def valid_child_def addChildren_def IBehaviorTreeNode_ctor_def)
  have u: "update (Suc (Suc 0)) () (Some 0) ?w = Some (Inr (SUCCESS, ?w'))"
    by (simp add: deref_def print_line_def addChildren_def IBehaviorTreeNode_ctor_def)
  from update_never_UNKNOWN [of "Suc (Suc 0)" "()" "Some 0" ?w SUCCESS ?w' ?rank 0] wf u
  show ?thesis by simp
qed

subsection \<open>Determinism of a tick\<close>

text \<open>
  Claim C6. No node class of the program keeps state of its own, so every leaf is
  stateless. When a tick returns, a second tick with the same time step on the
  resulting world returns as well: the tree is unchanged and the second tick writes the
  same lines again. The same holds at every node: an evaluation of any node that
  returns in the world before the tick returns the same status, leaves the same tree
  and writes the same lines in the world after it.
\<close>

theorem tick_deterministic:
  assumes "run k dt w = Some (Inr w1)"
  shows "run k dt w1 = Some (Inr (w1\<lparr>cout := cout w1 @ written w w1\<rparr>)) \<and>
         bt w1 = bt w \<and>
         (\<forall>j p st v. update j dt p w = Some (Inr (st, v)) \<longrightarrow>
            update j dt p w1 = Some (Inr (st, v\<lparr>cout := cout w1 @ written w v\<rparr>)))"
proof -
  from assms obtain s where r: "update k dt (m_root (bt w)) w = Some (Inr (s, w1))"
    by (auto simp: run_def split: option.splits sum.splits)
  have b: "bt w1 = bt w" using update_bt [OF r] .
  from update_shift [OF r b] b
  have "run k dt w1 = Some (Inr (w1\<lparr>cout := cout w1 @ written w w1\<rparr>))"
    by (simp add: run_def)
  moreover have "\<forall>j p st v. update j dt p w = Some (Inr (st, v)) \<longrightarrow>
            update j dt p w1 = Some (Inr (st, v\<lparr>cout := cout w1 @ written w v\<rparr>))"
    by (intro allI impI) (rule update_shift [OF _ b])
  ultimately show ?thesis using b by blast
qed

theorem tick_deterministic_witness:
  "(let T = \<lparr>m_root = Some 0, m_nodes =
              [addChildren (Some 1) (addChildren (Some 2) (construct Fallback)),
               construct Uno, construct Esto]\<rparr>;
        out = [''Running FALLBACK'', ''Esto -> FAILURE'', ''Uno -> SUCCESS'']
    in run (Suc (Suc 0)) () \<lparr>bt = T, cout = []\<rparr> = Some (Inr \<lparr>bt = T, cout = out\<rparr>) \<and>
       run (Suc (Suc 0)) () \<lparr>bt = T, cout = out\<rparr> = Some (Inr \<lparr>bt = T, cout = out @ out\<rparr>) \<and>
       update (Suc 0) () (Some 2) \<lparr>bt = T, cout = []\<rparr>
         = Some (Inr (FAILURE, \<lparr>bt = T, cout = [''Esto -> FAILURE'']\<rparr>)) \<and>
       update (Suc 0) () (Some 2) \<lparr>bt = T, cout = out\<rparr>
         = Some (Inr (FAILURE, \<lparr>bt = T, cout = out @ [''Esto -> FAILURE'']\<rparr>)))"
proof -
  let ?T = "\<lparr>m_root = Some 0, m_nodes =
              [addChildren (Some 1) (addChildren (Some 2) (construct Fallback)),
               construct Uno, construct Esto]\<rparr>"
  let ?out = "[''Running FALLBACK'', ''Esto -> FAILURE'', ''Uno -> SUCCESS'']"
  have r: "run (Suc (Suc 0)) () \<lparr>bt = ?T, cout = []\<rparr> = Some (Inr \<lparr>bt = ?T, cout = ?out\<rparr>)"
    by (simp add: run_def deref_def print_line_def addChildren_def IBehaviorTreeNode_ctor_def)
  have u: "update (Suc 0) () (Some 2) \<lparr>bt = ?T, cout = []\<rparr>
         = Some (Inr (FAILURE, \<lparr>bt = ?T, cout = [''Esto -> FAILURE'']\<rparr>))"
    by (simp add: deref_def print_line_def addChildren_def IBehaviorTreeNode_ctor_def)
  note D = tick_deterministic [OF r]
  from D have "run (Suc (Suc 0)) () \<lparr>bt = ?T, cout = ?out\<rparr> = Some (Inr \<lparr>bt = ?T, cout = ?out @ ?out\<rparr>)"
    by (simp add: written_def)
  moreover from D have "update (Suc 0) () (Some 2) \<lparr>bt = ?T, cout = []\<rparr>
         = Some (Inr (FAILURE, \<lparr>bt = ?T, cout = [''Esto -> FAILURE'']\<rparr>)) \<longrightarrow>
      update (Suc 0) () (Some 2) \<lparr>bt = ?T, cout = ?out\<rparr>
         = Some (Inr (FAILURE, \<lparr>bt = ?T, cout = [''Esto -> FAILURE'']\<rparr>
             \<lparr>cout := cout \<lparr>bt = ?T, cout = ?out\<rparr>
                @ written \<lparr>bt = ?T, cout = []\<rparr> \<lparr>bt = ?T, cout = [''Esto -> FAILURE'']\<rparr>\<rparr>))"
    by blast
  from this u have "update (Suc 0) () (Some 2) \<lparr>bt = ?T, cout = ?out\<rparr>
         = Some (Inr (FAILURE, \<lparr>bt = ?T, cout = [''Esto -> FAILURE'']\<rparr>
             \<lparr>cout := cout \<lparr>bt = ?T, cout = ?out\<rparr>
                @ written \<lparr>bt = ?T, cout = []\<rparr> \<lparr>bt = ?T, cout = [''Esto -> FAILURE'']\<rparr>\<rparr>))"
    by (rule mp)
  then have "update (Suc 0) () (Some 2) \<lparr>bt = ?T, cout = ?out\<rparr>
         = Some (Inr (FAILURE, \<lparr>bt = ?T, cout = ?out @ [''Esto -> FAILURE'']\<rparr>))"
    by (simp add: written_def del: update.simps)
  ultimately show ?thesis using r u unfolding Let_def by (intro conjI)
qed

subsection \<open>Adding children\<close>

text \<open>
  Claim C8. \<^verbatim>\<open>addChildren\<close> appends its argument at the end of the child list of the
  receiver: the new list is the old list followed by the argument, the type and the
  parent of the receiver are unchanged, and on the store every other node is unchanged.
  No operation reorders or removes children: over any sequence of calls of the public
  interface, no node disappears and the child list each node had before is a prefix of
  the child list it has afterwards.
\<close>

theorem addChildren_appends:
  "getChildren (addChildren c n) = getChildren n @ [c] \<and>
   getNodeType (addChildren c n) = getNodeType n \<and>
   getParent (addChildren c n) = getParent n \<and>
   (call_addChildren this c t = Inr t' \<longrightarrow>
      (\<exists>a. this = Some a \<and> a < length (m_nodes t) \<and>
         length (m_nodes t') = length (m_nodes t) \<and>
         getChildren (m_nodes t' ! a) = getChildren (m_nodes t ! a) @ [c] \<and>
         (\<forall>b < length (m_nodes t). b \<noteq> a \<longrightarrow> m_nodes t' ! b = m_nodes t ! b))) \<and>
   (exec k calls w = Some (Inr w') \<longrightarrow>
      length (m_nodes (bt w)) \<le> length (m_nodes (bt w')) \<and>
      (\<forall>b < length (m_nodes (bt w)).
         prefix (getChildren (m_nodes (bt w) ! b)) (getChildren (m_nodes (bt w') ! b))))"
proof (intro conjI impI)
  show "getChildren (addChildren c n) = getChildren n @ [c]"
    by (simp add: getChildren_def addChildren_def)
  show "getNodeType (addChildren c n) = getNodeType n"
    by (simp add: getNodeType_def addChildren_def)
  show "getParent (addChildren c n) = getParent n"
    by (simp add: getParent_def addChildren_def)
next
  assume "call_addChildren this c t = Inr t'"
  from call_addChildren_Inr [OF this] obtain a where "this = Some a" "a < length (m_nodes t)"
    "t' = t\<lparr>m_nodes := (m_nodes t)[a := addChildren c (m_nodes t ! a)]\<rparr>" by blast
  then show "\<exists>a. this = Some a \<and> a < length (m_nodes t) \<and>
         length (m_nodes t') = length (m_nodes t) \<and>
         getChildren (m_nodes t' ! a) = getChildren (m_nodes t ! a) @ [c] \<and>
         (\<forall>b < length (m_nodes t). b \<noteq> a \<longrightarrow> m_nodes t' ! b = m_nodes t ! b)"
    by (simp add: getChildren_def addChildren_def)
next
  assume e: "exec k calls w = Some (Inr w')"
  from exec_children_prefix [OF e]
  show "length (m_nodes (bt w)) \<le> length (m_nodes (bt w'))" by blast
  from exec_children_prefix [OF e]
  show "\<forall>b < length (m_nodes (bt w)).
         prefix (getChildren (m_nodes (bt w) ! b)) (getChildren (m_nodes (bt w') ! b))" by blast
qed


theorem addChildren_appends_witness:
  "(let t1 = \<lparr>m_root = None, m_nodes = [addChildren (Some 1) (construct Fallback), construct Esto, construct Uno]\<rparr>;
        t2 = \<lparr>m_root = None, m_nodes = [addChildren (Some 2) (addChildren (Some 1) (construct Fallback)), construct Esto, construct Uno]\<rparr>;
        t3 = \<lparr>m_root = Some 0, m_nodes = [addChildren (Some 2) (addChildren (Some 1) (construct Fallback)), construct Esto, construct Uno]\<rparr>;
        calls = [AddChildren (Some 0) (Some 2), SetRoot (Some 0), Run ()]
    in call_addChildren (Some 0) (Some 2) t1 = Inr t2 \<and>
       getChildren (m_nodes t1 ! 0) = [Some 1] \<and>
       getChildren (m_nodes t2 ! 0) = [Some 1, Some 2] \<and>
       exec (Suc (Suc 0)) calls \<lparr>bt = t1, cout = []\<rparr>
         = Some (Inr \<lparr>bt = t3, cout = [''Running FALLBACK'', ''Esto -> FAILURE'', ''Uno -> SUCCESS'']\<rparr>) \<and>
       prefix (getChildren (m_nodes t1 ! 0)) (getChildren (m_nodes t3 ! 0)))"
proof -
  let ?t1 = "\<lparr>m_root = None, m_nodes = [addChildren (Some 1) (construct Fallback), construct Esto, construct Uno]\<rparr>"
  let ?t2 = "\<lparr>m_root = None, m_nodes = [addChildren (Some 2) (addChildren (Some 1) (construct Fallback)), construct Esto, construct Uno]\<rparr>"
  let ?t3 = "\<lparr>m_root = Some 0, m_nodes = [addChildren (Some 2) (addChildren (Some 1) (construct Fallback)), construct Esto, construct Uno]\<rparr>"
  let ?calls = "[AddChildren (Some 0) (Some 2), SetRoot (Some 0), Run ()]"
  let ?w = "\<lparr>bt = ?t1, cout = []\<rparr>"
  let ?w' = "\<lparr>bt = ?t3, cout = [''Running FALLBACK'', ''Esto -> FAILURE'', ''Uno -> SUCCESS'']\<rparr>"
  have c: "call_addChildren (Some 0) (Some 2) ?t1 = Inr ?t2"
    by (simp add: call_addChildren_def)
  have e: "exec (Suc (Suc 0)) ?calls ?w = Some (Inr ?w')"
    by (simp add: call_addChildren_def setRoot_def run_def deref_def print_line_def
        addChildren_def IBehaviorTreeNode_ctor_def)
  have k1: "getChildren (m_nodes ?t1 ! 0) = [Some 1]"
    by (simp add: getChildren_def addChildren_def IBehaviorTreeNode_ctor_def)
  note T = addChildren_appends [where c = "Some 2" and this = "Some 0" and t = ?t1 and t' = ?t2
      and k = "Suc (Suc 0)" and calls = ?calls and w = ?w and w' = ?w']
  from T c k1 have k2: "getChildren (m_nodes ?t2 ! 0) = [Some 1, Some 2]"
    by auto
  from T e have "\<forall>b<length (m_nodes (bt ?w)).
      prefix (getChildren (m_nodes (bt ?w) ! b)) (getChildren (m_nodes (bt ?w') ! b))"
    by blast
  from this [rule_format, of 0]
  have p: "prefix (getChildren (m_nodes ?t1 ! 0)) (getChildren (m_nodes ?t3 ! 0))"
    by simp
  from c k1 k2 e p show ?thesis unfolding Let_def by (intro conjI)
qed

subsection \<open>The parent pointer\<close>

text \<open>
  Claim C9. The constructor sets the parent pointer to null and nothing ever assigns
  it: after any sequence of calls of the public interface (creating nodes, adding
  children, setting the root, running the tree, updating a node), \<^verbatim>\<open>getParent\<close>
  returns null for every stored node, also for a node that was added as a child of
  another.
\<close>

theorem getParent_always_null:
  "getParent (construct cls) = None \<and>
   (exec k calls (initial_world indeterminate) = Some (Inr w) \<longrightarrow>
      (\<forall>n\<in>set (m_nodes (bt w)). getParent n = None))"
proof (intro conjI impI)
  show "getParent (construct cls) = None"
    by (simp add: getParent_def m_parent_construct)
next
  assume e: "exec k calls (initial_world indeterminate) = Some (Inr w)"
  have "\<forall>n\<in>set (m_nodes (bt (initial_world indeterminate))). m_parent n = None"
    by (simp add: initial_world_def BehaviorTree_ctor_def)
  from exec_parent [OF e this] show "\<forall>n\<in>set (m_nodes (bt w)). getParent n = None"
    by (simp add: getParent_def)
qed


theorem getParent_always_null_witness:
  "(let calls = [Create Sequence, Create Uno, AddChildren (Some 0) (Some 1), SetRoot (Some 0), Run ()];
        w = \<lparr>bt = \<lparr>m_root = Some 0, m_nodes = [addChildren (Some 1) (construct Sequence), construct Uno]\<rparr>,
             cout = [''Running SEQUENCE'', ''Uno -> SUCCESS'']\<rparr>
    in exec (Suc (Suc 0)) calls (initial_world None) = Some (Inr w) \<and>
       getChildren (m_nodes (bt w) ! 0) = [Some 1] \<and>
       getParent (m_nodes (bt w) ! 1) = None \<and>
       (\<forall>n\<in>set (m_nodes (bt w)). getParent n = None))"
proof -
  let ?calls = "[Create Sequence, Create Uno, AddChildren (Some 0) (Some 1), SetRoot (Some 0), Run ()]"
  let ?w = "\<lparr>bt = \<lparr>m_root = Some 0, m_nodes = [addChildren (Some 1) (construct Sequence), construct Uno]\<rparr>,
             cout = [''Running SEQUENCE'', ''Uno -> SUCCESS'']\<rparr>"
  have e: "exec (Suc (Suc 0)) ?calls (initial_world None) = Some (Inr ?w)"
    by (simp add: initial_world_def BehaviorTree_ctor_def create_def call_addChildren_def
        setRoot_def run_def deref_def print_line_def addChildren_def IBehaviorTreeNode_ctor_def)
  note T = getParent_always_null [where k = "Suc (Suc 0)" and calls = ?calls
      and indeterminate = None and w = ?w]
  from T e have a: "\<forall>n\<in>set (m_nodes (bt ?w)). getParent n = None"
    by blast
  then have p: "getParent (m_nodes (bt ?w) ! 1) = None"
    by simp
  have k: "getChildren (m_nodes (bt ?w) ! 0) = [Some 1]"
    by (simp add: getChildren_def addChildren_def IBehaviorTreeNode_ctor_def)
  from e k p a show ?thesis unfolding Let_def by (intro conjI)
qed

subsection \<open>Running a tree whose root was never set\<close>

text \<open>
  Claim C3 says that \<^verbatim>\<open>run\<close> fails fast, by an assertion or a reported fatal error,
  when no root was assigned. The program has no such check. In the following host
  program \<^verbatim>\<open>setRoot\<close> is never called and the indeterminate root pointer of the
  default-initialised tree happens to be the address of the first node created: the
  tick returns normally, having evaluated that node.
\<close>

theorem run_before_setRoot_counterexample:
  "\<not> list_ex is_SetRoot [Create Uno, Run ()] \<and>
   exec (Suc 0) [Create Uno, Run ()] (initial_world (Some 0))
     = Some (Inr \<lparr>bt = \<lparr>m_root = Some 0, m_nodes = [construct Uno]\<rparr>, cout = [''Uno -> SUCCESS'']\<rparr>)"
  by (simp add: initial_world_def BehaviorTree_ctor_def create_def run_def deref_def
      print_line_def IBehaviorTreeNode_ctor_def)

text \<open>
  Claim C3, amended. \<^verbatim>\<open>run\<close> makes no check that a root was assigned; it calls
  \<^verbatim>\<open>update\<close> through whatever the root pointer holds. As long as \<^verbatim>\<open>setRoot\<close> was
  not called, the root pointer holds the indeterminate value that the tree started
  with. If that value is the address of a stored node, the node is evaluated exactly
  as if it had been assigned by \<^verbatim>\<open>setRoot\<close>. If it is null or the address of no
  node, the call dereferences an invalid pointer, which is undefined behaviour; the
  program makes no assertion and reports no error.
\<close>

theorem run_without_setRoot:
  assumes "\<not> list_ex is_SetRoot calls"
    and "exec k calls (initial_world indeterminate) = Some (Inr w)"
  shows "getRoot (bt w) = indeterminate \<and>
         run j dt w = step j (Update indeterminate dt) w \<and>
         (indeterminate = None \<longrightarrow> run (Suc j) dt w = Some (Inl NullDereference)) \<and>
         (\<forall>a. indeterminate = Some a \<and> length (m_nodes (bt w)) \<le> a \<longrightarrow>
              run (Suc j) dt w = Some (Inl InvalidDereference)) \<and>
         (\<forall>a. indeterminate = Some a \<and> a < length (m_nodes (bt w)) \<longrightarrow>
              run j dt w = run j dt (w\<lparr>bt := setRoot (Some a) (bt w)\<rparr>))"
proof -
  have g: "m_root (bt w) = indeterminate"
    using exec_root [OF assms(2,1)] by (simp add: initial_world_def BehaviorTree_ctor_def)
  have same: "w\<lparr>bt := setRoot indeterminate (bt w)\<rparr> = w"
    using g by (simp add: setRoot_def)
  show ?thesis
  proof (intro conjI allI impI)
    show "getRoot (bt w) = indeterminate" using g by (simp add: getRoot_def)
    show "run j dt w = step j (Update indeterminate dt) w" using g by (simp add: run_def)
    show "run (Suc j) dt w = Some (Inl NullDereference)" if "indeterminate = None"
      using that g by (simp add: run_def deref_def)
    show "run (Suc j) dt w = Some (Inl InvalidDereference)"
      if "indeterminate = Some a \<and> length (m_nodes (bt w)) \<le> a" for a
      using that g by (simp add: run_def deref_def)
    show "run j dt w = run j dt (w\<lparr>bt := setRoot (Some a) (bt w)\<rparr>)"
      if "indeterminate = Some a \<and> a < length (m_nodes (bt w))" for a
      using that same by simp
  qed
qed

theorem run_without_setRoot_witness:
  "(let calls = [Create Fallback, Create Tres, AddChildren (Some 0) (Some 1)] :: unit call list;
        t = \<lparr>m_root = Some 0, m_nodes = [addChildren (Some 1) (construct Fallback), construct Tres]\<rparr>;
        tn = \<lparr>m_root = None, m_nodes = [addChildren (Some 1) (construct Fallback), construct Tres]\<rparr>
    in \<not> list_ex is_SetRoot calls \<and>
       exec (Suc 0) calls (initial_world (Some 0)) = Some (Inr \<lparr>bt = t, cout = []\<rparr>) \<and>
       getRoot t = Some 0 \<and>
       run (Suc (Suc 0)) () \<lparr>bt = t, cout = []\<rparr>
         = run (Suc (Suc 0)) () (\<lparr>bt = t, cout = []\<rparr>\<lparr>bt := setRoot (Some 0) t\<rparr>) \<and>
       exec (Suc 0) calls (initial_world None) = Some (Inr \<lparr>bt = tn, cout = []\<rparr>) \<and>
       run (Suc 0) () \<lparr>bt = tn, cout = []\<rparr> = Some (Inl NullDereference))"
proof -
  let ?calls = "[Create Fallback, Create Tres, AddChildren (Some 0) (Some 1)] :: unit call list"
  let ?t = "\<lparr>m_root = Some 0, m_nodes = [addChildren (Some 1) (construct Fallback), construct Tres]\<rparr>"
  let ?tn = "\<lparr>m_root = None, m_nodes = [addChildren (Some 1) (construct Fallback), construct Tres]\<rparr>"
  have n: "\<not> list_ex is_SetRoot ?calls" by simp
  have e: "exec (Suc 0) ?calls (initial_world (Some 0)) = Some (Inr \<lparr>bt = ?t, cout = []\<rparr>)"
    by (simp add: initial_world_def BehaviorTree_ctor_def create_def call_addChildren_def
        addChildren_def IBehaviorTreeNode_ctor_def)
  have e0: "exec (Suc 0) ?calls (initial_world None) = Some (Inr \<lparr>bt = ?tn, cout = []\<rparr>)"
    by (simp add: initial_world_def BehaviorTree_ctor_def create_def call_addChildren_def
        addChildren_def IBehaviorTreeNode_ctor_def)
  note T = run_without_setRoot [OF n e, where j = "Suc (Suc 0)" and dt = "()"]
  note T0 = run_without_setRoot [OF n e0, where j = 0 and dt = "()"]
  from T have g: "getRoot ?t = Some 0" by simp
  from T have "\<forall>a. Some 0 = Some a \<and> a < length (m_nodes (bt \<lparr>bt = ?t, cout = []\<rparr>)) \<longrightarrow>
      run (Suc (Suc 0)) () \<lparr>bt = ?t, cout = []\<rparr>
        = run (Suc (Suc 0)) () (\<lparr>bt = ?t, cout = []\<rparr>\<lparr>bt := setRoot (Some a) (bt \<lparr>bt = ?t, cout = []\<rparr>)\<rparr>)"
    by blast
  then have r: "run (Suc (Suc 0)) () \<lparr>bt = ?t, cout = []\<rparr>
         = run (Suc (Suc 0)) () (\<lparr>bt = ?t, cout = []\<rparr>\<lparr>bt := setRoot (Some 0) ?t\<rparr>)"
    by (simp del: update.simps add: run_def)
  from T0 have r0: "run (Suc 0) () \<lparr>bt = ?tn, cout = []\<rparr> = Some (Inl NullDereference)"
    by blast
  from n e g r e0 r0 show ?thesis unfolding Let_def by (intro conjI)
qed

end
